theory Spec2Isabelle
  imports Complex_Main "HOL-Library.Multiset"
begin

section \<open>JavaScript values shared by the analyzers\<close>

text \<open>
  Source texts are modelled as \<^typ>\<open>string\<close>, one \<^typ>\<open>char\<close> per code unit; the
  analyzers only ever inspect ASCII characters (identifier characters, slashes, stars,
  line terminators, white space).  An absent (\<^verbatim>\<open>undefined\<close>) string field is modelled
  by the empty string, which JavaScript treats as falsy in the same way.
\<close>

definition newline :: char where
  "newline = CHR 0x0A"

definition carriage :: char where
  "carriage = CHR 0x0D"

definition lineTerminator :: "char \<Rightarrow> bool" where
  "lineTerminator c = (c = newline \<or> c = carriage)"

definition wordChar :: "char \<Rightarrow> bool" where
  "wordChar c = (c \<in> set ''ABCDEFGHIJKLMNOPQRSTUVWXYZabcdefghijklmnopqrstuvwxyz0123456789_'')"

definition lowerChar :: "char \<Rightarrow> char" where
  "lowerChar c =
     (case map_of (zip ''ABCDEFGHIJKLMNOPQRSTUVWXYZ'' ''abcdefghijklmnopqrstuvwxyz'') c of
        Some l \<Rightarrow> l
      | None \<Rightarrow> c)"

definition toLowerCase :: "string \<Rightarrow> string" where
  "toLowerCase s = map lowerChar s"

subsection \<open>Numbers\<close>

text \<open>
  A JavaScript number is an IEEE 754 double.  It is modelled by the rational it denotes;
  integers below \<open>2\<^sup>5\<^sup>3\<close> are doubles, and a quotient or product takes the nearest double,
  the one with the even significand on a tie.  Infinities and NaN do not arise: the
  analyzers divide counts by counts that are not zero.
\<close>

text \<open>The number of binary digits of a natural number.\<close>

function bitLength :: "nat \<Rightarrow> nat" where
  "bitLength n = (if n = 0 then 0 else Suc (bitLength (n div 2)))"
  by pat_completeness auto
termination
  by (relation "measure id") auto

declare bitLength.simps [simp del]

definition power2 :: "int \<Rightarrow> rat" where
  "power2 e = (if e \<ge> 0 then 2 ^ nat e else 1 / 2 ^ nat (- e))"

text \<open>The binary exponent of a positive number \<open>x\<close>: the \<open>e\<close> with \<open>2\<^sup>e \<le> x < 2\<^sup>e\<^sup>+\<^sup>1\<close>.\<close>

definition exponentOf :: "rat \<Rightarrow> int" where
  "exponentOf x =
     (if x \<ge> 1 then int (bitLength (nat \<lfloor>x\<rfloor>)) - 1
      else - int (bitLength (nat (\<lceil>1 / x\<rceil> - 1))))"

text \<open>The nearest integer, the even one on a tie.\<close>

definition roundHalfEven :: "rat \<Rightarrow> int" where
  "roundHalfEven m =
     (let n = \<lfloor>m\<rfloor>; r = m - of_int n
      in if r < 1 / 2 then n else if r > 1 / 2 then n + 1 else if even n then n else n + 1)"

text \<open>
  The double nearest to a rational: 53 significant binary digits, the spacing of the
  subnormal numbers below \<open>2\<^sup>-\<^sup>1\<^sup>0\<^sup>2\<^sup>2\<close>.  (Magnitudes of \<open>2\<^sup>1\<^sup>0\<^sup>2\<^sup>4\<close> and more, which would be
  infinite, are out of the reach of the analyzers.)
\<close>

definition toDouble :: "rat \<Rightarrow> rat" where
  "toDouble x =
     (if x = 0 then 0
      else (let e = max (exponentOf \<bar>x\<bar>) (- 1022);
                ulp = power2 (e - 52)
            in sgn x * of_int (roundHalfEven (\<bar>x\<bar> / ulp)) * ulp))"

text \<open>
  \<^verbatim>\<open>Number(x.toFixed(2))\<close>: \<^verbatim>\<open>toFixed\<close> takes the integer \<open>n\<close> for which \<open>n / 100\<close> is nearest to
  the double \<open>x\<close>, the larger one if there are two, and prints \<open>n / 100\<close>; \<^verbatim>\<open>Number\<close> reads
  the digits back as a double.
\<close>

definition toFixed2 :: "rat \<Rightarrow> rat" where
  "toFixed2 x = toDouble (of_int \<lfloor>x * 100 + 1 / 2\<rfloor> / 100)"

section \<open>The host: paths and files\<close>

text \<open>
  The analyzers reach the file system through Node's \<^verbatim>\<open>fs\<close> and \<^verbatim>\<open>path\<close> modules, which are
  not part of the repository.  The file system is an explicit store from absolute paths
  to nodes; \<^verbatim>\<open>path.resolve\<close> and \<^verbatim>\<open>path.basename\<close> are modelled for POSIX paths as Node
  documents them.
\<close>

datatype fsNode = Missing | Directory | Unreadable string | File string

text \<open>
  \<open>File content\<close> is a regular file that can be read; \<open>Unreadable message\<close> is a regular file
  whose opening or reading throws an error with this message; \<open>Missing\<close> is a path with no
  entry (\<^verbatim>\<open>ENOENT\<close>).
\<close>

record host =
  cwd :: string
  node :: "string \<Rightarrow> fsNode"

text \<open>Splitting at a separator character, as \<^verbatim>\<open>String.prototype.split\<close> does.\<close>

fun splitOn :: "char \<Rightarrow> string \<Rightarrow> string list" where
  "splitOn sep [] = [[]]"
| "splitOn sep (c # cs) =
     (if c = sep then [] # splitOn sep cs
      else (case splitOn sep cs of
              piece # pieces \<Rightarrow> (c # piece) # pieces
            | [] \<Rightarrow> [[c]]))"

fun joinWith :: "char \<Rightarrow> string list \<Rightarrow> string" where
  "joinWith sep [] = []"
| "joinWith sep [p] = p"
| "joinWith sep (p # q # ps) = p @ sep # joinWith sep (q # ps)"

text \<open>\<^verbatim>\<open>normalizeString\<close> of an absolute path: empty and \<^verbatim>\<open>.\<close> segments vanish, \<^verbatim>\<open>..\<close> drops
  the segment before it and cannot climb above the root.\<close>

definition normalizeSegments :: "string list \<Rightarrow> string list" where
  "normalizeSegments segs =
     fold (\<lambda>seg acc. if seg = [] \<or> seg = ''.'' then acc
                      else if seg = ''..'' then butlast acc
                      else acc @ [seg])
          segs []"

text \<open>The arguments of \<^verbatim>\<open>path.resolve\<close> are read from the right until one is absolute;
  the working directory, itself absolute, stands behind them.\<close>

fun gatherPaths :: "string \<Rightarrow> string list \<Rightarrow> string \<Rightarrow> string" where
  "gatherPaths base [] acc = base @ ''/'' @ acc"
| "gatherPaths base (p # ps) acc =
     (if p = [] then gatherPaths base ps acc
      else if hd p = CHR ''/'' then p @ ''/'' @ acc
      else gatherPaths base ps (p @ ''/'' @ acc))"

definition pathResolve :: "host \<Rightarrow> string list \<Rightarrow> string" where
  "pathResolve h args =
     CHR ''/'' # joinWith (CHR ''/'')
                  (normalizeSegments (splitOn (CHR ''/'') (gatherPaths (cwd h) (rev args) [])))"

text \<open>\<^verbatim>\<open>path.basename\<close>: trailing separators are ignored.\<close>

definition basename :: "string \<Rightarrow> string" where
  "basename p =
     (let stripped = rev (dropWhile (\<lambda>c. c = CHR ''/'') (rev p))
      in rev (takeWhile (\<lambda>c. c \<noteq> CHR ''/'') (rev stripped)))"

text \<open>\<^verbatim>\<open>value.replace(/\\/g, "/")\<close>\<close>

definition normalizePath :: "string \<Rightarrow> string" where
  "normalizePath v = map (\<lambda>c. if c = CHR 0x5C then CHR ''/'' else c) v"

text \<open>White space and line terminators among the one-byte code units
  (\<^verbatim>\<open>String.prototype.trim\<close>, \<^verbatim>\<open>\s\<close>).\<close>

definition whiteSpace :: "char \<Rightarrow> bool" where
  "whiteSpace c = (c \<in> {CHR 0x09, CHR 0x0A, CHR 0x0B, CHR 0x0C, CHR 0x0D, CHR 0x20, CHR 0xA0})"

definition trim :: "string \<Rightarrow> string" where
  "trim s = rev (dropWhile whiteSpace (rev (dropWhile whiteSpace s)))"

text \<open>Decimal rendering of a number in a template string.\<close>

definition digitChar :: "nat \<Rightarrow> char" where
  "digitChar d = ''0123456789'' ! (d mod 10)"

function showNat :: "nat \<Rightarrow> string" where
  "showNat n = (if n < 10 then [digitChar n] else showNat (n div 10) @ [digitChar (n mod 10)])"
  by pat_completeness auto
termination
  by (relation "measure id") auto

declare showNat.simps [simp del]

section \<open>Language detection\<close>

definition EXTENSION_TO_LANGUAGE :: "(string \<times> string) list" where
  "EXTENSION_TO_LANGUAGE =
     [(''.js'', ''JavaScript''), (''.jsx'', ''JavaScript''), (''.ts'', ''TypeScript''),
      (''.tsx'', ''TypeScript''), (''.mjs'', ''JavaScript''), (''.cjs'', ''JavaScript''),
      (''.json'', ''JSON''), (''.py'', ''Python''), (''.rb'', ''Ruby''), (''.java'', ''Java''),
      (''.kt'', ''Kotlin''), (''.swift'', ''Swift''), (''.go'', ''Go''), (''.rs'', ''Rust''),
      (''.php'', ''PHP''), (''.cs'', ''C#''), (''.cpp'', ''C++''), (''.cc'', ''C++''),
      (''.c'', ''C''), (''.h'', ''C/C++ Header''), (''.hpp'', ''C++ Header''), (''.sql'', ''SQL''),
      (''.yml'', ''YAML''), (''.yaml'', ''YAML''), (''.toml'', ''TOML''), (''.md'', ''Markdown''),
      (''.vue'', ''Vue''), (''.svelte'', ''Svelte''), (''.scss'', ''SCSS''), (''.css'', ''CSS''),
      (''.html'', ''HTML''), (''.xml'', ''XML''), (''.sh'', ''Shell''), (''.bash'', ''Shell''),
      (''.zsh'', ''Shell''), (''.ps1'', ''PowerShell'')]"

definition detectLanguage :: "string \<Rightarrow> string" where
  "detectLanguage ext =
     (case map_of EXTENSION_TO_LANGUAGE (toLowerCase ext) of
        Some language \<Rightarrow> language
      | None \<Rightarrow> ''Unknown'')"

record fileEntry =
  f_path :: string
  f_name :: string
  f_ext :: string
  f_size :: nat

text \<open>\<^verbatim>\<open>fs.readFileSync(absPath, "utf8")\<close>: the content, or the message of the error thrown.\<close>

definition readFileSync :: "host \<Rightarrow> string \<Rightarrow> string + string" where
  "readFileSync h absPath =
     (case node h absPath of
        File content \<Rightarrow> Inr content
      | Unreadable message \<Rightarrow> Inl message
      | Directory \<Rightarrow> Inl ''EISDIR: illegal operation on a directory, read''
      | Missing \<Rightarrow>
          Inl (''ENOENT: no such file or directory, open '' @ [CHR 0x27] @ absPath @ [CHR 0x27]))"

section \<open>The regular expressions of the analyzers\<close>

text \<open>
  The analyzers count matches of a few regular expressions.  These are alternatives of
  sequences of literals, word boundaries, repeated character classes and optional groups.
  A match attempt at a position yields the lengths of all matches there, in the order a
  backtracking matcher finds them; the first one is the match it reports.
\<close>

datatype charClass = OneOf string | NoneOf string | WordClass | SpaceClass

fun inClass :: "charClass \<Rightarrow> char \<Rightarrow> bool" where
  "inClass (OneOf cs) c = (c \<in> set cs)"
| "inClass (NoneOf cs) c = (c \<notin> set cs)"
| "inClass WordClass c = wordChar c"
| "inClass SpaceClass c = whiteSpace c"

datatype atom = Lit string | WordB | Star charClass | Plus charClass | One charClass

datatype piece = Atom atom | Opt "atom list"

type_synonym regex = "piece list list"

text \<open>The character before the position and the one at it; there is none at the ends.\<close>

fun isWord :: "char option \<Rightarrow> bool" where
  "isWord None = False"
| "isWord (Some c) = wordChar c"

definition headOf :: "string \<Rightarrow> char option" where
  "headOf s = (case s of [] \<Rightarrow> None | c # cs \<Rightarrow> Some c)"

definition prevAfter :: "char option \<Rightarrow> string \<Rightarrow> nat \<Rightarrow> char option" where
  "prevAfter prev rest n = (if n = 0 then prev else Some (rest ! (n - 1)))"

text \<open>A greedy repetition gives back one character at a time.\<close>

fun atomLens :: "atom \<Rightarrow> char option \<Rightarrow> string \<Rightarrow> nat list" where
  "atomLens (Lit l) prev rest = (if take (length l) rest = l then [length l] else [])"
| "atomLens WordB prev rest = (if isWord prev \<noteq> isWord (headOf rest) then [0] else [])"
| "atomLens (Star c) prev rest = rev [0..<Suc (length (takeWhile (inClass c) rest))]"
| "atomLens (Plus c) prev rest = rev [1..<Suc (length (takeWhile (inClass c) rest))]"
| "atomLens (One c) prev rest =
     (case rest of [] \<Rightarrow> [] | x # xs \<Rightarrow> if inClass c x then [1] else [])"

fun atomsLens :: "atom list \<Rightarrow> char option \<Rightarrow> string \<Rightarrow> nat list" where
  "atomsLens [] prev rest = [0]"
| "atomsLens (a # as) prev rest =
     concat (map (\<lambda>n. map (\<lambda>m. n + m) (atomsLens as (prevAfter prev rest n) (drop n rest)))
                 (atomLens a prev rest))"

text \<open>An optional group is tried before it is skipped.\<close>

fun pieceLens :: "piece \<Rightarrow> char option \<Rightarrow> string \<Rightarrow> nat list" where
  "pieceLens (Atom a) prev rest = atomLens a prev rest"
| "pieceLens (Opt as) prev rest = atomsLens as prev rest @ [0]"

fun piecesLens :: "piece list \<Rightarrow> char option \<Rightarrow> string \<Rightarrow> nat list" where
  "piecesLens [] prev rest = [0]"
| "piecesLens (p # ps) prev rest =
     concat (map (\<lambda>n. map (\<lambda>m. n + m) (piecesLens ps (prevAfter prev rest n) (drop n rest)))
                 (pieceLens p prev rest))"

definition matchLen :: "regex \<Rightarrow> char option \<Rightarrow> string \<Rightarrow> nat option" where
  "matchLen r prev rest =
     (case concat (map (\<lambda>alt. piecesLens alt prev rest) r) of
        [] \<Rightarrow> None
      | n # ns \<Rightarrow> Some n)"

text \<open>
  \<^verbatim>\<open>value.match(regex)\<close> with the flag \<^verbatim>\<open>g\<close>: the matches are searched from left to right,
  each search starting where the match before ended (one character further after an
  empty match).  \<open>skip\<close> counts the characters still covered by the last match.
\<close>

fun countFrom :: "regex \<Rightarrow> char option \<Rightarrow> string \<Rightarrow> nat \<Rightarrow> nat" where
  "countFrom r prev [] skip = (if skip = 0 \<and> matchLen r prev [] \<noteq> None then 1 else 0)"
| "countFrom r prev (c # cs) skip =
     (if skip > 0 then countFrom r (Some c) cs (skip - 1)
      else (case matchLen r prev (c # cs) of
              None \<Rightarrow> countFrom r (Some c) cs 0
            | Some n \<Rightarrow> 1 + countFrom r (Some c) cs (n - 1)))"

text \<open>\<^verbatim>\<open>matches ? matches.length : 0\<close>\<close>

definition countMatches :: "string \<Rightarrow> regex \<Rightarrow> nat" where
  "countMatches v r = countFrom r None v 0"

text \<open>\<^verbatim>\<open>\bw1\b|\bw2\b|...\<close>, which is \<^verbatim>\<open>\b(w1|w2|...)\b\<close>.\<close>

definition wordsRegex :: "string list \<Rightarrow> regex" where
  "wordsRegex ws = map (\<lambda>w. [Atom WordB, Atom (Lit w), Atom WordB]) ws"

text \<open>\<^verbatim>\<open>content.split(/\r?\n/)\<close>\<close>

fun splitLines :: "string \<Rightarrow> string list" where
  "splitLines [] = [[]]"
| "splitLines [c] = (if c = newline then [[], []] else [[c]])"
| "splitLines (c # d # cs) =
     (if c = newline then [] # splitLines (d # cs)
      else if c = carriage \<and> d = newline then [] # splitLines cs
      else (case splitLines (d # cs) of
              l # ls \<Rightarrow> (c # l) # ls
            | [] \<Rightarrow> [[c]]))"

section \<open>Clone detector\<close>

definition MIN_TOKENS :: nat where "MIN_TOKENS = 5"
definition MAX_PAIRS :: nat where "MAX_PAIRS = 250000"
definition DEFAULT_THRESHOLD :: rat where "DEFAULT_THRESHOLD = toDouble (55 / 100)"
definition SHINGLE_SIZE :: nat where "SHINGLE_SIZE = 3"
definition WINDOW_SIZE :: nat where "WINDOW_SIZE = 4"
definition MAX_MATCHES_PER_PAIR :: nat where "MAX_MATCHES_PER_PAIR = 200"

definition JS_FAMILY :: "string set" where
  "JS_FAMILY = {''javascript'', ''typescript'', ''js'', ''ts'', ''jsx'', ''tsx''}"

subsection \<open>Symbols\<close>

record symbolEntry =
  sym_id :: string
  sym_fileId :: string
  sym_name :: string
  sym_kind :: string
  sym_path :: string
  sym_language :: string
  sym_startLine :: int
  sym_endLine :: int
  sym_text :: string

definition isFunctionLike :: "symbolEntry \<Rightarrow> bool" where
  "isFunctionLike entry =
     (let kind = toLowerCase (sym_kind entry)
      in kind = ''function'' \<or> kind = ''component'')"

subsection \<open>Tokenizer\<close>

text \<open>\<^verbatim>\<open>match.replace(/[^\n]/g, " ")\<close>\<close>

definition blank :: "string \<Rightarrow> string" where
  "blank s = map (\<lambda>c. if c = newline then c else CHR '' '') s"

text \<open>The lazy \<^verbatim>\<open>[\s\S]*?\*\/\<close>: the text up to the first \<^verbatim>\<open>*/\<close>, and what follows it.\<close>

fun findClose :: "string \<Rightarrow> (string \<times> string) option" where
  "findClose (a # b # cs) =
     (if a = CHR ''*'' \<and> b = CHR ''/'' then Some ([], cs)
      else map_option (\<lambda>(body, rest). (a # body, rest)) (findClose (b # cs)))"
| "findClose cs = None"

lemma findClose_length:
  "findClose s = Some (body, rest) \<Longrightarrow> length rest < length s"
proof (induction s arbitrary: body rule: findClose.induct)
  case (1 a b cs)
  show ?case
  proof (cases "a = CHR ''*'' \<and> b = CHR ''/''")
    case True
    then show ?thesis using "1.prems" by auto
  next
    case False
    then obtain body' where "findClose (b # cs) = Some (body', rest)"
      using "1.prems" by (auto split: prod.splits)
    then have "length rest < length (b # cs)" using "1.IH" False by blast
    then show ?thesis by simp
  qed
qed simp_all

text \<open>First replacement of \<^verbatim>\<open>stripCommentsPreserveLayout\<close>: every \<^verbatim>\<open>/* ... */\<close>, scanned
  from the left; an opener with no closer is left as it is.\<close>

function stripBlockComments :: "string \<Rightarrow> string" where
  "stripBlockComments [] = []"
| "stripBlockComments [a] = [a]"
| "stripBlockComments (a # b # cs) =
     (if a = CHR ''/'' \<and> b = CHR ''*'' then
        (case findClose cs of
           Some (body, rest) \<Rightarrow> blank (a # b # body @ ''*/'') @ stripBlockComments rest
         | None \<Rightarrow> a # stripBlockComments (b # cs))
      else a # stripBlockComments (b # cs))"
  by pat_completeness auto
termination
  by (relation "measure length") (auto dest: findClose_length)

text \<open>Second replacement: every \<^verbatim>\<open>//\<close> up to the end of its line (\<^verbatim>\<open>/\/\/.*$/gm\<close>).\<close>

function stripLineComments :: "string \<Rightarrow> string" where
  "stripLineComments [] = []"
| "stripLineComments [a] = [a]"
| "stripLineComments (a # b # cs) =
     (if a = CHR ''/'' \<and> b = CHR ''/'' then
        blank (a # b # takeWhile (\<lambda>c. \<not> lineTerminator c) cs)
          @ stripLineComments (dropWhile (\<lambda>c. \<not> lineTerminator c) cs)
      else a # stripLineComments (b # cs))"
  by pat_completeness auto
termination
  by (relation "measure length") (auto intro: le_imp_less_Suc less_SucI length_dropWhile_le)

definition stripCommentsPreserveLayout :: "string \<Rightarrow> string" where
  "stripCommentsPreserveLayout text' = stripLineComments (stripBlockComments text')"

record tokenMeta =
  tm_tokens :: "string list"
  tm_offsets :: "nat list"
  tm_lengths :: "nat list"

text \<open>The \<^verbatim>\<open>while ((match = regex.exec(sanitized)))\<close> loop over \<^verbatim>\<open>/[A-Za-z0-9_]+/g\<close>:
  \<open>pos\<close> is the offset of the remaining text.\<close>

function tokenScan :: "string \<Rightarrow> nat \<Rightarrow> tokenMeta \<Rightarrow> tokenMeta" where
  "tokenScan [] pos acc = acc"
| "tokenScan (c # cs) pos acc =
     (if wordChar c then
        (let m = c # takeWhile wordChar cs;
             rest = dropWhile wordChar cs;
             token = toLowerCase m
         in if token = ''_'' then tokenScan rest (pos + length m) acc
            else
              (let acc' = acc\<lparr>tm_tokens := tm_tokens acc @ [token],
                               tm_offsets := tm_offsets acc @ [pos],
                               tm_lengths := tm_lengths acc @ [length m]\<rparr>
               in if length (tm_tokens acc') \<ge> 5000 then acc'
                  else tokenScan rest (pos + length m) acc'))
      else tokenScan cs (pos + 1) acc)"
  by pat_completeness auto
termination
  by (relation "measure (\<lambda>(s, pos, acc). length s)")
     (auto intro: le_imp_less_Suc length_dropWhile_le)

definition tokenizeWithMeta :: "string \<Rightarrow> tokenMeta" where
  "tokenizeWithMeta text' =
     (if text' = [] then \<lparr>tm_tokens = [], tm_offsets = [], tm_lengths = []\<rparr>
      else tokenScan (stripCommentsPreserveLayout text') 0
             \<lparr>tm_tokens = [], tm_offsets = [], tm_lengths = []\<rparr>)"

subsection \<open>Token counts\<close>

text \<open>A JavaScript \<^verbatim>\<open>Map\<close> whose iteration order matters is an association list in
  insertion order; \<^verbatim>\<open>set\<close> overwrites in place or appends.\<close>

fun mapSet :: "('k \<times> 'v) list \<Rightarrow> 'k \<Rightarrow> 'v \<Rightarrow> ('k \<times> 'v) list" where
  "mapSet [] k v = [(k, v)]"
| "mapSet ((k', v') # ps) k v = (if k' = k then (k, v) # ps else (k', v') # mapSet ps k v)"

definition buildTokenCounts :: "string list \<Rightarrow> (string \<times> nat) list" where
  "buildTokenCounts toks =
     fold (\<lambda>token counts.
             mapSet counts token ((case map_of counts token of None \<Rightarrow> 0 | Some n \<Rightarrow> n) + 1))
          toks []"

subsection \<open>Fingerprints\<close>

record fingerprint =
  fp_hash :: nat
  fp_index :: nat

text \<open>Reading \<^verbatim>\<open>tokens[i]\<close>: \<^verbatim>\<open>undefined\<close> out of range.\<close>

definition elemAt :: "'a list \<Rightarrow> nat \<Rightarrow> 'a option" where
  "elemAt xs i = (if i < length xs then Some (xs ! i) else None)"

definition hashShingle :: "string list \<Rightarrow> nat \<Rightarrow> nat \<Rightarrow> nat" where
  "hashShingle toks start len =
     fold (\<lambda>i hash.
             (fold (\<lambda>ch h. (h * 31 + of_char ch) mod 1000003) (toks ! (start + i)) hash
                * 131 + 1) mod 1000003)
          [0 ..< len] 0"

text \<open>The comparison both scans of \<^verbatim>\<open>winnow\<close> use: a smaller hash, or the same hash at
  a later index.\<close>

definition beats :: "fingerprint \<Rightarrow> fingerprint \<Rightarrow> bool" where
  "beats current best =
     (fp_hash current < fp_hash best \<or>
      (fp_hash current = fp_hash best \<and> fp_index current > fp_index best))"

text \<open>The \<^verbatim>\<open>reduce\<close> of the short case, started from \<^verbatim>\<open>null\<close>.\<close>

definition reduceMin :: "fingerprint list \<Rightarrow> fingerprint option" where
  "reduceMin hashes =
     fold (\<lambda>current best.
             case best of
               None \<Rightarrow> Some current
             | Some b \<Rightarrow> if beats current b then Some current else Some b)
          hashes None"

definition pushFingerprint :: "fingerprint list \<Rightarrow> fingerprint \<Rightarrow> fingerprint list" where
  "pushFingerprint fingerprints candidate =
     (if fingerprints = [] \<or>
         fp_hash (last fingerprints) \<noteq> fp_hash candidate \<or>
         fp_index (last fingerprints) \<noteq> fp_index candidate
      then fingerprints @ [candidate]
      else fingerprints)"

text \<open>The inner \<^verbatim>\<open>for\<close> loop that rescans the window \<open>windowStart .. windowEnd\<close>.\<close>

definition rescan :: "fingerprint list \<Rightarrow> nat \<Rightarrow> nat \<Rightarrow> nat" where
  "rescan hashes windowStart windowEnd =
     fold (\<lambda>i minIndex. if beats (hashes ! i) (hashes ! minIndex) then i else minIndex)
          [windowStart ..< Suc windowEnd] windowStart"

text \<open>The \<^verbatim>\<open>while\<close> loop; \<open>minIndex\<close> starts at \<open>-1\<close>, hence an \<^typ>\<open>int\<close>.\<close>

function winnowLoop ::
  "fingerprint list \<Rightarrow> nat \<Rightarrow> nat \<Rightarrow> int \<Rightarrow> fingerprint list \<Rightarrow> fingerprint list" where
  "winnowLoop hashes windowStart windowEnd minIndex fingerprints =
     (if windowEnd < length hashes then
        (if minIndex < int windowStart then
           (let m = rescan hashes windowStart windowEnd
            in winnowLoop hashes (windowStart + 1) (windowEnd + 1) (int m)
                 (pushFingerprint fingerprints (hashes ! m)))
         else
           (let next = hashes ! windowEnd; mn = hashes ! nat minIndex
            in if beats next mn
               then winnowLoop hashes (windowStart + 1) (windowEnd + 1) (int windowEnd)
                      (pushFingerprint fingerprints next)
               else winnowLoop hashes (windowStart + 1) (windowEnd + 1) minIndex fingerprints))
      else fingerprints)"
  by pat_completeness auto
termination
  by (relation "measure (\<lambda>(hashes, windowStart, windowEnd, minIndex, fingerprints).
                           length hashes - windowEnd)") auto

declare winnowLoop.simps [simp del]

definition winnow :: "fingerprint list \<Rightarrow> nat \<Rightarrow> fingerprint list" where
  "winnow hashes windowSize =
     (if hashes = [] \<or> windowSize = 0 then []
      else if length hashes \<le> windowSize then
        (case reduceMin hashes of Some m \<Rightarrow> [m] | None \<Rightarrow> [])
      else winnowLoop hashes 0 (windowSize - 1) (- 1) [])"

record fingerprintData =
  fd_fingerprints :: "fingerprint list"
  fd_fingerprintIndex :: "(nat \<times> nat list) list"
  fd_fingerprintHashes :: "nat list"

text \<open>One step of \<^verbatim>\<open>fingerprints.forEach\<close>: at most 64 indices are kept per hash.\<close>

definition indexFingerprint :: "fingerprint \<Rightarrow> (nat \<times> nat list) list \<Rightarrow> (nat \<times> nat list) list" where
  "indexFingerprint fp fingerprintIndex =
     (let withKey = (if map_of fingerprintIndex (fp_hash fp) = None
                     then mapSet fingerprintIndex (fp_hash fp) []
                     else fingerprintIndex);
          arr = (case map_of withKey (fp_hash fp) of Some a \<Rightarrow> a | None \<Rightarrow> [])
      in if length arr < 64 then mapSet withKey (fp_hash fp) (arr @ [fp_index fp])
         else withKey)"

definition kgramHashes :: "string list \<Rightarrow> nat \<Rightarrow> fingerprint list" where
  "kgramHashes toks shingleSize =
     map (\<lambda>i. \<lparr>fp_hash = hashShingle toks i shingleSize, fp_index = i\<rparr>)
         [0 ..< Suc (length toks - shingleSize)]"

definition computeFingerprints :: "string list \<Rightarrow> nat \<Rightarrow> nat \<Rightarrow> fingerprintData" where
  "computeFingerprints toks shingleSize windowSize =
     (if length toks < shingleSize then
        \<lparr>fd_fingerprints = [], fd_fingerprintIndex = [], fd_fingerprintHashes = []\<rparr>
      else
        (let hashes = kgramHashes toks shingleSize;
             fingerprints = winnow hashes windowSize;
             fingerprintIndex = fold indexFingerprint fingerprints []
         in \<lparr>fd_fingerprints = fingerprints,
             fd_fingerprintIndex = fingerprintIndex,
             fd_fingerprintHashes = map fst fingerprintIndex\<rparr>))"

subsection \<open>Line offsets\<close>

fun lineOffsetsFrom :: "nat \<Rightarrow> string \<Rightarrow> nat list" where
  "lineOffsetsFrom pos [] = []"
| "lineOffsetsFrom pos (c # cs) =
     (if c = newline then Suc pos # lineOffsetsFrom (Suc pos) cs
      else lineOffsetsFrom (Suc pos) cs)"

text \<open>\<^verbatim>\<open>[0]\<close>, then one past every newline found by \<^verbatim>\<open>indexOf("\n", index)\<close>.\<close>

definition buildLineOffsets :: "string \<Rightarrow> nat list" where
  "buildLineOffsets content = 0 # lineOffsetsFrom 0 content"

text \<open>The binary search of \<^verbatim>\<open>locateLine\<close>; a missing \<^verbatim>\<open>offsets[mid + 1]\<close> is
  \<^verbatim>\<open>Infinity\<close>.\<close>

function locateLoop :: "nat \<Rightarrow> nat list \<Rightarrow> int \<Rightarrow> int \<Rightarrow> nat" where
  "locateLoop position offs low high =
     (if low \<le> high then
        (let mid = (low + high) div 2;
             start = offs ! nat mid
         in if position < start then locateLoop position offs low (mid - 1)
            else if (case elemAt offs (nat mid + 1) of
                       Some nxt \<Rightarrow> position \<ge> nxt | None \<Rightarrow> False)
            then locateLoop position offs (mid + 1) high
            else nat mid + 1)
      else length offs)"
  by pat_completeness auto
termination
  by (relation "measure (\<lambda>(position, offs, low, high). nat (high - low + 1))") auto

declare locateLoop.simps [simp del]

definition locateLine :: "nat \<Rightarrow> nat list \<Rightarrow> nat" where
  "locateLine position offs =
     (if offs = [] then 1 else locateLoop position offs 0 (int (length offs) - 1))"

subsection \<open>Prepared symbols\<close>

record cloneSymbol =
  cs_id :: string
  cs_path :: string
  cs_fileId :: string
  cs_startLine :: int
  cs_endLine :: int
  cs_language :: string
  cs_tokens :: "string list"
  cs_tokenOffsets :: "nat list"
  cs_tokenLengths :: "nat list"
  cs_lineOffsets :: "nat list"
  cs_fingerprints :: "fingerprint list"
  cs_fingerprintIndex :: "(nat \<times> nat list) list"
  cs_fingerprintHashes :: "nat list"
  cs_tokenCounts :: "(string \<times> nat) list"
  cs_tokenTotal :: nat

definition enrichSymbol :: "string \<Rightarrow> symbolEntry \<Rightarrow> cloneSymbol option" where
  "enrichSymbol rootPath symbol =
     (if sym_text symbol = [] \<or> sym_id symbol = [] then None
      else
        (let meta = tokenizeWithMeta (sym_text symbol)
         in if length (tm_tokens meta) < MIN_TOKENS then None
            else
              (let fd = computeFingerprints (tm_tokens meta) SHINGLE_SIZE WINDOW_SIZE
               in Some \<lparr>cs_id = sym_id symbol,
                        cs_path = sym_path symbol,
                        cs_fileId = (if sym_fileId symbol \<noteq> [] then sym_fileId symbol
                                     else ''file:'' @ sym_path symbol),
                        cs_startLine = sym_startLine symbol,
                        cs_endLine = sym_endLine symbol,
                        cs_language = sym_language symbol,
                        cs_tokens = tm_tokens meta,
                        cs_tokenOffsets = tm_offsets meta,
                        cs_tokenLengths = tm_lengths meta,
                        cs_lineOffsets = buildLineOffsets (sym_text symbol),
                        cs_fingerprints = fd_fingerprints fd,
                        cs_fingerprintIndex = fd_fingerprintIndex fd,
                        cs_fingerprintHashes = fd_fingerprintHashes fd,
                        cs_tokenCounts = buildTokenCounts (tm_tokens meta),
                        cs_tokenTotal = length (tm_tokens meta)\<rparr>)))"

subsection \<open>Comparing two symbols\<close>

definition normalizeLanguage :: "string \<Rightarrow> string option" where
  "normalizeLanguage v =
     (if v = [] then None
      else (let normalized = toLowerCase v
            in if normalized \<in> JS_FAMILY then Some ''js-family'' else Some normalized))"

definition languagesAreCompatible :: "string \<Rightarrow> string \<Rightarrow> bool" where
  "languagesAreCompatible a b =
     (case (normalizeLanguage a, normalizeLanguage b) of
        (Some normA, Some normB) \<Rightarrow> normA = normB
      | _ \<Rightarrow> True)"

definition hasSharedFingerprints :: "cloneSymbol \<Rightarrow> cloneSymbol \<Rightarrow> bool" where
  "hasSharedFingerprints a b =
     (let aSmaller = length (cs_fingerprintHashes a) \<le> length (cs_fingerprintHashes b);
          smaller = (if aSmaller then cs_fingerprintHashes a else cs_fingerprintHashes b);
          larger = (if aSmaller then cs_fingerprintHashes b else cs_fingerprintHashes a)
      in list_ex (\<lambda>hash. hash \<in> set larger) smaller)"

record segment =
  seg_start :: nat
  seg_end :: nat

record tokenMatch =
  startA :: nat
  endA :: nat
  startB :: nat
  endB :: nat

fun extendLeft :: "string list \<Rightarrow> string list \<Rightarrow> nat \<Rightarrow> nat \<Rightarrow> nat \<times> nat" where
  "extendLeft tokensA tokensB 0 sB = (0, sB)"
| "extendLeft tokensA tokensB sA 0 = (sA, 0)"
| "extendLeft tokensA tokensB (Suc sA) (Suc sB) =
     (if elemAt tokensA sA = elemAt tokensB sB then extendLeft tokensA tokensB sA sB
      else (Suc sA, Suc sB))"

function extendRight :: "string list \<Rightarrow> string list \<Rightarrow> nat \<Rightarrow> nat \<Rightarrow> nat \<times> nat" where
  "extendRight tokensA tokensB eA eB =
     (if eA + 1 < length tokensA \<and> eB + 1 < length tokensB \<and>
         elemAt tokensA (eA + 1) = elemAt tokensB (eB + 1)
      then extendRight tokensA tokensB (eA + 1) (eB + 1)
      else (eA, eB))"
  by pat_completeness auto
termination
  by (relation "measure (\<lambda>(tokensA, tokensB, eA, eB). length tokensA - eA)") auto

declare extendRight.simps [simp del]

definition extendMatch ::
  "string list \<Rightarrow> string list \<Rightarrow> nat \<Rightarrow> nat \<Rightarrow> nat \<Rightarrow> tokenMatch option" where
  "extendMatch tokensA tokensB idxA idxB shingleSize =
     (let limit = min (int (length tokensA) - int idxA) (int (length tokensB) - int idxB)
      in if limit < int shingleSize then None
         else
           (let (sA, sB) = extendLeft tokensA tokensB idxA idxB;
                (eA, eB) = extendRight tokensA tokensB
                             (idxA + shingleSize - 1) (idxB + shingleSize - 1)
            in Some \<lparr>startA = sA, endA = eA, startB = sB, endB = eB\<rparr>))"

text \<open>One step of the \<^verbatim>\<open>for\<close> loop of \<^verbatim>\<open>mergeSegments\<close> over the sorted segments.\<close>

definition mergeStep :: "segment \<Rightarrow> segment list \<Rightarrow> segment list" where
  "mergeStep current merged =
     (let lst = last merged
      in if seg_start current \<le> seg_end lst + 1
         then butlast merged @ [lst\<lparr>seg_end := max (seg_end lst) (seg_end current)\<rparr>]
         else merged @ [\<lparr>seg_start = seg_start current, seg_end = seg_end current\<rparr>])"

text \<open>\<^verbatim>\<open>Array.prototype.sort\<close> is stable, as \<^const>\<open>sort_key\<close> is.\<close>

definition mergeSegments :: "segment list \<Rightarrow> segment list" where
  "mergeSegments segments =
     (if segments = [] then []
      else (let sorted = sort_key seg_start segments
            in fold mergeStep (tl sorted) [hd sorted]))"

record matchState =
  seenPairs :: "(nat \<times> nat) list"
  segmentsA :: "segment list"
  segmentsB :: "segment list"

text \<open>
  The body of the innermost loop of \<^verbatim>\<open>computeSymbolOverlap\<close>.  Once \<^verbatim>\<open>seenPairs\<close> holds
  \<^verbatim>\<open>MAX_MATCHES_PER_PAIR\<close> keys each of the three nested loops breaks; the set never
  shrinks, so breaking is the same as doing nothing in every remaining iteration.
\<close>

definition matchStep ::
  "cloneSymbol \<Rightarrow> cloneSymbol \<Rightarrow> nat \<Rightarrow> nat \<Rightarrow> matchState \<Rightarrow> matchState" where
  "matchStep a b idxA idxB st =
     (if length (seenPairs st) \<ge> MAX_MATCHES_PER_PAIR then st
      else if (idxA, idxB) \<in> set (seenPairs st) then st
      else
        (let st' = st\<lparr>seenPairs := seenPairs st @ [(idxA, idxB)]\<rparr>
         in case extendMatch (cs_tokens a) (cs_tokens b) idxA idxB SHINGLE_SIZE of
              None \<Rightarrow> st'
            | Some m \<Rightarrow>
                st'\<lparr>segmentsA := segmentsA st' @ [\<lparr>seg_start = startA m, seg_end = endA m\<rparr>],
                    segmentsB := segmentsB st' @ [\<lparr>seg_start = startB m, seg_end = endB m\<rparr>]\<rparr>))"

record overlap =
  ov_similarity :: rat
  ov_segmentsA :: "segment list"
  ov_segmentsB :: "segment list"

definition positionsOf :: "(nat \<times> nat list) list \<Rightarrow> nat \<Rightarrow> nat list" where
  "positionsOf fingerprintIndex hash =
     (case map_of fingerprintIndex hash of Some arr \<Rightarrow> arr | None \<Rightarrow> [])"

definition computeSymbolOverlap :: "cloneSymbol \<Rightarrow> cloneSymbol \<Rightarrow> overlap option" where
  "computeSymbolOverlap a b =
     (let shared = filter (\<lambda>hash. hash \<in> set (cs_fingerprintHashes b)) (cs_fingerprintHashes a)
      in if shared = [] then None
         else
           (let st = fold (\<lambda>hash.
                             fold (\<lambda>idxA.
                                     fold (\<lambda>idxB. matchStep a b idxA idxB)
                                          (positionsOf (cs_fingerprintIndex b) hash))
                                  (positionsOf (cs_fingerprintIndex a) hash))
                          shared
                          \<lparr>seenPairs = [], segmentsA = [], segmentsB = []\<rparr>
            in if segmentsA st = [] \<or> segmentsB st = [] then None
               else
                 (let mergedA = mergeSegments (segmentsA st);
                      mergedB = mergeSegments (segmentsB st)
                  in if mergedA = [] \<or> mergedB = [] then None
                     else
                       (let overlapTokens =
                              sum_list (map (\<lambda>seg. int (seg_end seg) - int (seg_start seg) + 1)
                                            mergedA);
                            denominator = max (length (cs_tokens a)) (length (cs_tokens b))
                        in if denominator = 0 then None
                           else Some \<lparr>ov_similarity =
                                        toDouble (of_int overlapTokens / of_nat denominator),
                                      ov_segmentsA = mergedA,
                                      ov_segmentsB = mergedB\<rparr>))))"

definition diceCoefficient ::
  "(string \<times> nat) list \<Rightarrow> nat \<Rightarrow> (string \<times> nat) list \<Rightarrow> nat \<Rightarrow> rat" where
  "diceCoefficient countsA totalA countsB totalB =
     (if totalA = 0 \<or> totalB = 0 then 0
      else
        (let intersection =
               fold (\<lambda>(token, count) acc.
                       case map_of countsB token of
                         Some countB \<Rightarrow> acc + min count countB
                       | None \<Rightarrow> acc)
                    countsA 0;
             combined = totalA + totalB
         in if combined = 0 then 0
            else toDouble (of_nat (2 * intersection) / of_nat combined)))"

record lineRange =
  lr_startLine :: int
  lr_endLine :: int

text \<open>\<^verbatim>\<open>x || y\<close> on numbers.\<close>

definition orElse :: "int \<Rightarrow> int \<Rightarrow> int" where
  "orElse x y = (if x \<noteq> 0 then x else y)"

definition segmentsToLines :: "cloneSymbol \<Rightarrow> segment list \<Rightarrow> lineRange" where
  "segmentsToLines symbol segments =
     (if segments = [] then
        \<lparr>lr_startLine = cs_startLine symbol, lr_endLine = cs_endLine symbol\<rparr>
      else
        (let first = hd segments;
             lst = last segments;
             startOffset = (case elemAt (cs_tokenOffsets symbol) (seg_start first) of
                              Some off \<Rightarrow> off | None \<Rightarrow> 0);
             endTokenOffset =
               (case elemAt (cs_tokenOffsets symbol) (seg_end lst) of
                  Some off \<Rightarrow>
                    off + (case elemAt (cs_tokenLengths symbol) (seg_end lst) of
                             Some len \<Rightarrow> len | None \<Rightarrow> 0)
                | None \<Rightarrow> startOffset);
             startLine = cs_startLine symbol
                           + int (locateLine startOffset (cs_lineOffsets symbol)) - 1;
             endLine = cs_startLine symbol
                         + int (locateLine (nat (max (int endTokenOffset - 1) 0))
                                  (cs_lineOffsets symbol)) - 1
         in \<lparr>lr_startLine = orElse startLine (cs_startLine symbol),
             lr_endLine = orElse endLine (cs_endLine symbol)\<rparr>))"

subsection \<open>The clones map\<close>

record cloneEntry =
  ce_targetId :: string
  ce_filePath :: string
  ce_startLine :: int
  ce_endLine :: int
  ce_similarity :: rat

type_synonym clones = "string \<rightharpoonup> cloneEntry list"

definition addClone ::
  "clones \<Rightarrow> cloneSymbol \<Rightarrow> cloneSymbol \<Rightarrow> rat \<Rightarrow> lineRange option \<Rightarrow> clones" where
  "addClone results source target similarity rng =
     (let existing = (case results (cs_id source) of Some es \<Rightarrow> es | None \<Rightarrow> []);
          startLine = (case rng of
                         Some r \<Rightarrow> if lr_startLine r \<noteq> 0 then lr_startLine r
                                    else cs_startLine target
                       | None \<Rightarrow> cs_startLine target);
          endLine = (case rng of
                       Some r \<Rightarrow> if lr_endLine r \<noteq> 0 then lr_endLine r else cs_endLine target
                     | None \<Rightarrow> cs_endLine target)
      in results(cs_id source \<mapsto>
           existing @ [\<lparr>ce_targetId = cs_id target,
                         ce_filePath = cs_path target,
                         ce_startLine = startLine,
                         ce_endLine = endLine,
                         ce_similarity = toFixed2 similarity\<rparr>]))"

text \<open>\<^verbatim>\<open>overlap\<close> of the loop body: computed only when the two fingerprint sets meet.\<close>

definition pairOverlap :: "cloneSymbol \<Rightarrow> cloneSymbol \<Rightarrow> overlap option" where
  "pairOverlap a b = (if hasSharedFingerprints a b then computeSymbolOverlap a b else None)"

text \<open>\<^verbatim>\<open>similarity\<close> of the loop body.\<close>

definition pairSimilarity :: "cloneSymbol \<Rightarrow> cloneSymbol \<Rightarrow> rat" where
  "pairSimilarity a b =
     (let dice = diceCoefficient (cs_tokenCounts a) (cs_tokenTotal a)
                                 (cs_tokenCounts b) (cs_tokenTotal b)
      in case pairOverlap a b of
           Some ov \<Rightarrow> max (ov_similarity ov) dice
         | None \<Rightarrow> dice)"

text \<open>The body of the inner loop for a pair that passed both guards.\<close>

definition comparePair :: "cloneSymbol \<Rightarrow> cloneSymbol \<Rightarrow> rat \<Rightarrow> clones \<Rightarrow> clones" where
  "comparePair a b threshold results =
     (let ov = pairOverlap a b;
          similarity = pairSimilarity a b
      in if similarity \<ge> threshold then
           (let rangeForB = map_option (\<lambda>found. segmentsToLines b (ov_segmentsB found)) ov;
                rangeForA = map_option (\<lambda>found. segmentsToLines a (ov_segmentsA found)) ov
            in addClone (addClone results a b similarity rangeForB) b a similarity rangeForA)
         else results)"

text \<open>The loop over \<open>j\<close>, for the symbols after \<open>a\<close>; the state is the map and
  \<^verbatim>\<open>comparisons\<close>.\<close>

fun innerLoop ::
  "cloneSymbol \<Rightarrow> cloneSymbol list \<Rightarrow> rat \<Rightarrow> clones \<times> nat \<Rightarrow> clones \<times> nat" where
  "innerLoop a [] threshold st = st"
| "innerLoop a (b # bs) threshold (results, comparisons) =
     (if comparisons \<ge> MAX_PAIRS then (results, comparisons)
      else if \<not> languagesAreCompatible (cs_language a) (cs_language b)
      then innerLoop a bs threshold (results, comparisons)
      else innerLoop a bs threshold (comparePair a b threshold results, comparisons + 1))"

text \<open>The loop over \<open>i\<close>.\<close>

fun outerLoop :: "cloneSymbol list \<Rightarrow> rat \<Rightarrow> clones \<times> nat \<Rightarrow> clones \<times> nat" where
  "outerLoop [] threshold st = st"
| "outerLoop (a # rest) threshold st = outerLoop rest threshold (innerLoop a rest threshold st)"

text \<open>The array \<^verbatim>\<open>symbols\<close>: the function-like entries that could be prepared.\<close>

definition cloneCandidates :: "string \<Rightarrow> symbolEntry list \<Rightarrow> cloneSymbol list" where
  "cloneCandidates rootPath symbolEntries =
     List.map_filter (enrichSymbol rootPath) (filter isFunctionLike symbolEntries)"

definition findSymbolClones :: "string \<Rightarrow> symbolEntry list \<Rightarrow> rat \<Rightarrow> clones" where
  "findSymbolClones rootPath symbolEntries threshold =
     (if symbolEntries = [] then Map.empty
      else
        (let symbols = cloneCandidates rootPath symbolEntries
         in if symbols = [] then Map.empty
            else fst (outerLoop symbols threshold (Map.empty, 0))))"

subsection \<open>Specification of winnowing\<close>

text \<open>
  The fingerprint a window should yield, in the words of the specification: among the
  entries with the minimum hash, the one with the largest index.
\<close>

definition latestMin :: "fingerprint list \<Rightarrow> fingerprint" where
  "latestMin window =
     (let m = Min (fp_hash ` set window);
          candidates = filter (\<lambda>x. fp_hash x = m) window;
          i = Max (fp_index ` set candidates)
      in hd (filter (\<lambda>x. fp_index x = i) candidates))"

text \<open>\<open>x\<close> is in the window and wins the comparison against every other entry.\<close>

definition isBest :: "fingerprint list \<Rightarrow> fingerprint \<Rightarrow> bool" where
  "isBest window x = (x \<in> set window \<and> (\<forall>y \<in> set window. y \<noteq> x \<longrightarrow> beats x y))"

text \<open>Shorthand for writing a fingerprint.\<close>

definition fp :: "nat \<Rightarrow> nat \<Rightarrow> fingerprint" where
  "fp h i = \<lparr>fp_hash = h, fp_index = i\<rparr>"

subsection \<open>Specification of the pairwise comparison\<close>

text \<open>The entries stored under an id; none when the id is not a key.\<close>

definition entriesOf :: "clones \<Rightarrow> string \<Rightarrow> cloneEntry list" where
  "entriesOf results k = (case results k of Some es \<Rightarrow> es | None \<Rightarrow> [])"

text \<open>All pairs \<open>(xs ! i, xs ! j)\<close> with \<open>i < j\<close>, in the order the two loops meet them.\<close>

fun pairsOf :: "'a list \<Rightarrow> ('a \<times> 'a) list" where
  "pairsOf [] = []"
| "pairsOf (a # rest) = map (Pair a) rest @ pairsOf rest"

text \<open>The pairs that get compared: those of compatible languages, up to \<^verbatim>\<open>MAX_PAIRS\<close> of
  them.\<close>

definition comparedPairs :: "cloneSymbol list \<Rightarrow> (cloneSymbol \<times> cloneSymbol) list" where
  "comparedPairs symbols =
     take MAX_PAIRS
       (filter (\<lambda>(a, b). languagesAreCompatible (cs_language a) (cs_language b))
               (pairsOf symbols))"

text \<open>All pairs of compatible languages; they are all compared when there are at most
  \<^verbatim>\<open>MAX_PAIRS\<close> of them.\<close>

definition compatiblePairs :: "cloneSymbol list \<Rightarrow> (cloneSymbol \<times> cloneSymbol) list" where
  "compatiblePairs symbols =
     filter (\<lambda>(a, b). languagesAreCompatible (cs_language a) (cs_language b)) (pairsOf symbols)"

text \<open>The Dice coefficient in the words of the specification, over the token multisets;
  the quotient is a JavaScript number.\<close>

definition diceSpec :: "string list \<Rightarrow> string list \<Rightarrow> rat" where
  "diceSpec A B =
     toDouble (of_nat (2 * (\<Sum>t \<in> set A \<union> set B. min (count (mset A) t) (count (mset B) t)))
                 / of_nat (length A + length B))"

text \<open>
  The overlap of two symbols in the words of the specification.  For each hash the two
  fingerprint sets share, in the order of the first symbol, every position of the hash
  in the first symbol is paired with every position of it in the second.
\<close>

definition sharedPositions :: "cloneSymbol \<Rightarrow> cloneSymbol \<Rightarrow> (nat \<times> nat) list" where
  "sharedPositions a b =
     concat (map (\<lambda>hash.
                    concat (map (\<lambda>idxA. map (Pair idxA) (positionsOf (cs_fingerprintIndex b) hash))
                                (positionsOf (cs_fingerprintIndex a) hash)))
                 (filter (\<lambda>hash. hash \<in> set (cs_fingerprintHashes b)) (cs_fingerprintHashes a)))"

text \<open>A list without its repetitions, every element where it first occurs.\<close>

definition firstOccurrences :: "'a list \<Rightarrow> 'a list" where
  "firstOccurrences xs = rev (remdups (rev xs))"

text \<open>The index pairs that are looked at: the first \<^verbatim>\<open>MAX_MATCHES_PER_PAIR\<close> different
  ones.\<close>

definition matchedPositions :: "cloneSymbol \<Rightarrow> cloneSymbol \<Rightarrow> (nat \<times> nat) list" where
  "matchedPositions a b = take MAX_MATCHES_PER_PAIR (firstOccurrences (sharedPositions a b))"

text \<open>The number of leading positions at which two lists agree.\<close>

definition commonPrefix :: "'a list \<Rightarrow> 'a list \<Rightarrow> nat" where
  "commonPrefix xs ys = length (takeWhile (\<lambda>(x, y). x = y) (zip xs ys))"

text \<open>
  A pair of positions can be extended when a k-gram fits at both.  The extended match
  runs to the left as far as the tokens before the two positions agree, and to the right
  as far as the tokens after the two k-grams agree; \<open>extentA\<close> is the set of token
  positions of the first symbol it covers.
\<close>

definition extendable :: "string list \<Rightarrow> string list \<Rightarrow> nat \<times> nat \<Rightarrow> bool" where
  "extendable A B p = (fst p + SHINGLE_SIZE \<le> length A \<and> snd p + SHINGLE_SIZE \<le> length B)"

definition extentA :: "string list \<Rightarrow> string list \<Rightarrow> nat \<times> nat \<Rightarrow> nat set" where
  "extentA A B p =
     {fst p - commonPrefix (rev (take (fst p) A)) (rev (take (snd p) B)) ..
      fst p + SHINGLE_SIZE - 1
        + commonPrefix (drop (fst p + SHINGLE_SIZE) A) (drop (snd p + SHINGLE_SIZE) B)}"

text \<open>The same extent as a segment.\<close>

definition matchSegmentA :: "string list \<Rightarrow> string list \<Rightarrow> nat \<times> nat \<Rightarrow> segment" where
  "matchSegmentA A B p =
     \<lparr>seg_start = fst p - commonPrefix (rev (take (fst p) A)) (rev (take (snd p) B)),
      seg_end = fst p + SHINGLE_SIZE - 1
                  + commonPrefix (drop (fst p + SHINGLE_SIZE) A) (drop (snd p + SHINGLE_SIZE) B)\<rparr>"

text \<open>The token positions of the first symbol that some extended match covers; merging
  the segments that overlap or touch leaves exactly these positions.\<close>

definition coveredA :: "cloneSymbol \<Rightarrow> cloneSymbol \<Rightarrow> nat set" where
  "coveredA a b =
     \<Union> (extentA (cs_tokens a) (cs_tokens b) `
          {p \<in> set (matchedPositions a b). extendable (cs_tokens a) (cs_tokens b) p})"

text \<open>The overlap similarity: the number of covered tokens over the larger token count,
  a JavaScript number.\<close>

definition overlapSimilarity :: "cloneSymbol \<Rightarrow> cloneSymbol \<Rightarrow> rat" where
  "overlapSimilarity a b =
     toDouble (of_nat (card (coveredA a b))
                 / of_nat (max (length (cs_tokens a)) (length (cs_tokens b))))"

text \<open>The token positions a segment covers, those a list of segments covers, and the
  sum of the lengths of the segments, as \<^verbatim>\<open>computeSymbolOverlap\<close> adds them up.\<close>

definition positionsIn :: "segment \<Rightarrow> nat set" where
  "positionsIn s = {seg_start s .. seg_end s}"

definition cover :: "segment list \<Rightarrow> nat set" where
  "cover segs = \<Union> (positionsIn ` set segs)"

definition totalLength :: "segment list \<Rightarrow> int" where
  "totalLength segs = sum_list (map (\<lambda>seg. int (seg_end seg) - int (seg_start seg) + 1) segs)"

text \<open>
  Rounding to two decimals in the words of the specification: \<open>s\<close> is the JavaScript
  number written \<open>n / 100\<close>, for the integer \<open>n\<close> with \<open>n / 100\<close> nearest to \<open>x\<close> (the larger one
  when \<open>x\<close> lies in the middle of two).
\<close>

definition roundedToHundredths :: "rat \<Rightarrow> rat \<Rightarrow> bool" where
  "roundedToHundredths x s =
     (\<exists>n :: int. s = toDouble (of_int n / 100) \<and>
                 of_int n / 100 - 1 / 200 \<le> x \<and> x < of_int n / 100 + 1 / 200)"

text \<open>The similarity of two symbols of a list: that of the pair with the symbol that
  comes first in the list as its first component.\<close>

definition similarityOf :: "cloneSymbol list \<Rightarrow> cloneSymbol \<Rightarrow> cloneSymbol \<Rightarrow> rat" where
  "similarityOf symbols c c' =
     (if (c, c') \<in> set (pairsOf symbols) then pairSimilarity c c' else pairSimilarity c' c)"

text \<open>The entry \<^verbatim>\<open>addClone\<close> stores for a target.\<close>

definition entryFor :: "cloneSymbol \<Rightarrow> rat \<Rightarrow> lineRange option \<Rightarrow> cloneEntry" where
  "entryFor target similarity rng =
     \<lparr>ce_targetId = cs_id target,
      ce_filePath = cs_path target,
      ce_startLine = (case rng of
                        Some r \<Rightarrow> if lr_startLine r \<noteq> 0 then lr_startLine r
                                   else cs_startLine target
                      | None \<Rightarrow> cs_startLine target),
      ce_endLine = (case rng of
                      Some r \<Rightarrow> if lr_endLine r \<noteq> 0 then lr_endLine r else cs_endLine target
                    | None \<Rightarrow> cs_endLine target),
      ce_similarity = toFixed2 similarity\<rparr>"

text \<open>What one compared pair appends to the list stored under the id \<open>x\<close>.\<close>

definition contribution :: "rat \<Rightarrow> string \<Rightarrow> cloneSymbol \<times> cloneSymbol \<Rightarrow> cloneEntry list" where
  "contribution threshold x p =
     (case p of (a, b) \<Rightarrow>
        if pairSimilarity a b \<ge> threshold then
          (if cs_id a = x
           then [entryFor b (pairSimilarity a b)
                   (map_option (\<lambda>found. segmentsToLines b (ov_segmentsB found)) (pairOverlap a b))]
           else []) @
          (if cs_id b = x
           then [entryFor a (pairSimilarity a b)
                   (map_option (\<lambda>found. segmentsToLines a (ov_segmentsA found)) (pairOverlap a b))]
           else [])
        else [])"

subsection \<open>Example symbols\<close>

definition exSym :: "string \<Rightarrow> string \<Rightarrow> string \<Rightarrow> symbolEntry" where
  "exSym i p t = \<lparr>sym_id = i, sym_fileId = [], sym_name = ''f'', sym_kind = ''function'',
     sym_path = p, sym_language = ''JavaScript'', sym_startLine = 1, sym_endLine = 1, sym_text = t\<rparr>"

definition exCand :: "string \<Rightarrow> string \<Rightarrow> cloneSymbol" where
  "exCand i p =
  \<lparr>cs_id = i, cs_path = p, cs_fileId = ''file:'' @ p,
     cs_startLine = 1, cs_endLine = 1, cs_language = ''JavaScript'',
     cs_tokens = [''a'', ''b'', ''c'', ''d'', ''e''],
     cs_tokenOffsets = [0, 2, 4, 6, 8], cs_tokenLengths = [1, 1, 1, 1, 1],
     cs_lineOffsets = [0],
     cs_fingerprints = [\<lparr>fp_hash = 195913, fp_index = 2\<rparr>],
     cs_fingerprintIndex = [(195913, [2])], cs_fingerprintHashes = [195913],
     cs_tokenCounts =
       [(''a'', 1), (''b'', 1), (''c'', 1), (''d'', 1), (''e'', 1)],
     cs_tokenTotal = 5\<rparr>"

text \<open>The prepared form of a symbol with the text \<^verbatim>\<open>z y a b c d e z\<close>.\<close>

definition exCandLong :: "string \<Rightarrow> string \<Rightarrow> cloneSymbol" where
  "exCandLong i p =
  \<lparr>cs_id = i, cs_path = p, cs_fileId = ''file:'' @ p,
     cs_startLine = 1, cs_endLine = 1, cs_language = ''JavaScript'',
     cs_tokens = [''z'', ''y'', ''a'', ''b'', ''c'', ''d'', ''e'', ''z''],
     cs_tokenOffsets = [0, 2, 4, 6, 8, 10, 12, 14],
     cs_tokenLengths = [1, 1, 1, 1, 1, 1, 1, 1],
     cs_lineOffsets = [0],
     cs_fingerprints = [\<lparr>fp_hash = 254823, fp_index = 3\<rparr>, \<lparr>fp_hash = 195913, fp_index = 4\<rparr>,
                        \<lparr>fp_hash = 139623, fp_index = 5\<rparr>],
     cs_fingerprintIndex = [(254823, [3]), (195913, [4]), (139623, [5])],
     cs_fingerprintHashes = [254823, 195913, 139623],
     cs_tokenCounts =
       [(''z'', 2), (''y'', 1), (''a'', 1), (''b'', 1), (''c'', 1), (''d'', 1), (''e'', 1)],
     cs_tokenTotal = 8\<rparr>"

section \<open>File metrics\<close>

definition DEFAULT_MAX_FILE_SIZE :: nat where "DEFAULT_MAX_FILE_SIZE = 512 * 1024"

record fileMetrics =
  fm_language :: string
  fm_size :: nat
  fm_lineCount :: "nat option"
  fm_complexityScore :: "rat option"
  fm_todoCount :: nat
  fm_skipped :: bool

record issue =
  is_severity :: string
  is_type :: string
  is_path :: string
  is_message :: string

definition DECISION_REGEX :: regex where
  "DECISION_REGEX =
     wordsRegex [''if'', ''else if'', ''for'', ''while'', ''case'', ''catch'', ''throw'',
                 ''function'', ''class'', ''=>'', ''switch'']"

definition TODO_REGEX :: regex where
  "TODO_REGEX = wordsRegex [''TODO'', ''FIXME'', ''HACK'', ''XXX'']"

text \<open>\<^verbatim>\<open>count.toFixed(1)\<close> of a number that is not negative.\<close>

definition showFixed1 :: "rat \<Rightarrow> string" where
  "showFixed1 x =
     (let tenths = nat \<lfloor>x * 10 + 1 / 2\<rfloor>
      in showNat (tenths div 10) @ ''.'' @ showNat (tenths mod 10))"

text \<open>The number to string conversion of a template string, for a multiple of 1/100 that
  is not negative: no trailing zeros after the point.\<close>

definition showHundredths :: "rat \<Rightarrow> string" where
  "showHundredths x =
     (let hundredths = nat \<lfloor>x * 100\<rfloor>;
          whole = hundredths div 100;
          part = hundredths mod 100
      in showNat whole @
           (if part = 0 then []
            else if part mod 10 = 0 then ''.'' @ [digitChar (part div 10)]
            else ''.'' @ [digitChar (part div 10), digitChar (part mod 10)]))"

text \<open>The loop of \<^verbatim>\<open>formatBytes\<close> over the units that are left; \<open>amount\<close> is its
  variable \<^verbatim>\<open>count\<close>.\<close>

fun scaleBytes :: "rat \<Rightarrow> string list \<Rightarrow> rat \<times> string" where
  "scaleBytes amount [] = (amount, [])"
| "scaleBytes amount [u] = (amount, u)"
| "scaleBytes amount (u # v # us) =
     (if amount \<ge> 1024 then scaleBytes (toDouble (amount / 1024)) (v # us) else (amount, u))"

definition formatBytes :: "nat \<Rightarrow> string" where
  "formatBytes bytes =
     (case scaleBytes (of_nat bytes) [''B'', ''KB'', ''MB'', ''GB''] of
        (amount, u) \<Rightarrow> showFixed1 amount @ '' '' @ u)"

text \<open>
  One round of the loop of \<^verbatim>\<open>computeFileMetrics\<close>: the record it stores under the path of
  the file, and the issues it pushes.
\<close>

definition fileReport :: "host \<Rightarrow> string \<Rightarrow> nat \<Rightarrow> fileEntry \<Rightarrow> fileMetrics \<times> issue list" where
  "fileReport h rootPath maxFileSize file =
     (let absPath = pathResolve h [rootPath, f_path file];
          fileMetrics = \<lparr>fm_language = detectLanguage (f_ext file), fm_size = f_size file,
                         fm_lineCount = None, fm_complexityScore = None, fm_todoCount = 0,
                         fm_skipped = False\<rparr>
      in if f_size file > maxFileSize then
           (fileMetrics\<lparr>fm_skipped := True\<rparr>,
            [\<lparr>is_severity = ''info'', is_type = ''file-too-large'', is_path = f_path file,
              is_message = ''Skipped reading '' @ f_path file @ '' ('' @ formatBytes (f_size file)
                             @ '') to keep analysis fast.''\<rparr>])
         else
           (case readFileSync h absPath of
              Inl message \<Rightarrow>
                (fileMetrics\<lparr>fm_skipped := True\<rparr>,
                 [\<lparr>is_severity = ''warning'', is_type = ''file-read-error'', is_path = f_path file,
                   is_message = ''Could not read file: '' @ message\<rparr>])
            | Inr content \<Rightarrow>
                (let lineCount = length (splitLines content);
                     decisionPoints = countMatches content DECISION_REGEX;
                     todoCount = countMatches content TODO_REGEX;
                     complexityScore =
                       (if lineCount \<noteq> 0
                        then toFixed2 (toDouble (toDouble (of_nat decisionPoints / of_nat lineCount)
                                                   * 100))
                        else 0)
                 in (fileMetrics\<lparr>fm_lineCount := Some lineCount, fm_todoCount := todoCount,
                                  fm_complexityScore := Some complexityScore\<rparr>,
                     (if lineCount > 300 then
                        [\<lparr>is_severity = ''warning'', is_type = ''large-file'', is_path = f_path file,
                          is_message = f_path file @ '' has '' @ showNat lineCount
                                         @ '' lines; consider breaking it down.''\<rparr>]
                      else []) @
                     (if complexityScore > 35 then
                        [\<lparr>is_severity = ''warning'', is_type = ''high-complexity'',
                          is_path = f_path file,
                          is_message = f_path file @ '' has high decision density (''
                                         @ showHundredths complexityScore
                                         @ '' decisions per 100 lines).''\<rparr>]
                      else []) @
                     (if todoCount > 0 then
                        [\<lparr>is_severity = ''info'', is_type = ''todo-comments'', is_path = f_path file,
                          is_message = showNat todoCount @ '' TODO-like comments found.''\<rparr>]
                      else [])))))"

type_synonym metricsResult = "(string \<rightharpoonup> fileMetrics) \<times> issue list"

definition metricsStep ::
  "host \<Rightarrow> string \<Rightarrow> nat \<Rightarrow> fileEntry \<Rightarrow> metricsResult \<Rightarrow> metricsResult" where
  "metricsStep h rootPath maxFileSize file acc =
     (case acc of (metricsByFile, issues) \<Rightarrow>
        (case fileReport h rootPath maxFileSize file of
           (fileMetrics, pushed) \<Rightarrow> (metricsByFile(f_path file \<mapsto> fileMetrics), issues @ pushed)))"

text \<open>\<open>options\<close> is \<^verbatim>\<open>options.maxFileSize\<close>, \<open>None\<close> when it is undefined.\<close>

definition computeFileMetrics ::
  "host \<Rightarrow> string \<Rightarrow> fileEntry list \<Rightarrow> nat option \<Rightarrow> metricsResult" where
  "computeFileMetrics h rootPath files options =
     (let maxFileSize = (case options of Some m \<Rightarrow> m | None \<Rightarrow> DEFAULT_MAX_FILE_SIZE)
      in fold (metricsStep h rootPath maxFileSize) files (Map.empty, []))"

subsection \<open>Example files\<close>

definition metricsNode :: "string \<Rightarrow> fsNode" where
  "metricsNode p =
     (if p = ''/proj/ok.js''
      then File (''if (a) {'' @ [newline] @ ''  // TODO'' @ [newline] @ ''}'')
      else if p = ''/proj/locked.js''
      then Unreadable ''EACCES: permission denied, open /proj/locked.js''
      else if p = ''/proj/big.bin'' then File ''not read''
      else if p = ''/proj/full.txt'' then File (replicate (512 * 1024) (CHR ''x''))
      else Missing)"

definition metricsHost :: host where
  "metricsHost = \<lparr>cwd = ''/srv'', node = metricsNode\<rparr>"

subsection \<open>Reading the result\<close>

definition metricsOf :: "metricsResult \<Rightarrow> string \<Rightarrow> fileMetrics option" where
  "metricsOf r p = fst r p"

definition issuesFor :: "metricsResult \<Rightarrow> string \<Rightarrow> issue list" where
  "issuesFor r p = filter (\<lambda>i. is_path i = p) (snd r)"

section \<open>Structure graph\<close>

definition MAX_FILE_BYTES :: nat where "MAX_FILE_BYTES = 256 * 1024"
definition MAX_SYMBOL_BYTES :: nat where "MAX_SYMBOL_BYTES = 128 * 1024"

subsection \<open>Symbol extraction\<close>

definition createFallbackSymbol :: "string \<Rightarrow> string \<Rightarrow> string \<Rightarrow> symbolEntry list" where
  "createFallbackSymbol content relativePath language =
     (if content = [] \<or> trim content = [] then []
      else
        (let normalizedPath = normalizePath relativePath;
             snippet = take MAX_SYMBOL_BYTES content;
             lineOffsets = buildLineOffsets content;
             totalLines = length lineOffsets
         in [\<lparr>sym_id = ''file:'' @ normalizedPath @ ''#__file__'',
              sym_fileId = ''file:'' @ normalizedPath,
              sym_name = (if basename normalizedPath \<noteq> [] then basename normalizedPath
                          else normalizedPath),
              sym_kind = ''file'',
              sym_path = normalizedPath,
              sym_language = language,
              sym_startLine = 1,
              sym_endLine = int totalLines,
              sym_text = snippet\<rparr>]))"

text \<open>The position \<^verbatim>\<open>indexById\<close> holds for an id: that of the kept entry with this id.\<close>

fun indexOfId :: "string \<Rightarrow> symbolEntry list \<Rightarrow> nat option" where
  "indexOfId i [] = None"
| "indexOfId i (u # us) =
     (if sym_id u = i then Some 0 else map_option Suc (indexOfId i us))"

definition dedupeStep :: "symbolEntry \<Rightarrow> symbolEntry list \<Rightarrow> symbolEntry list" where
  "dedupeStep entry unique =
     (if sym_id entry = [] then unique
      else (case indexOfId (sym_id entry) unique of
              None \<Rightarrow> unique @ [entry]
            | Some existingIndex \<Rightarrow>
                if length (sym_text entry) > length (sym_text (unique ! existingIndex))
                then unique[existingIndex := entry]
                else unique))"

definition dedupeById :: "symbolEntry list \<Rightarrow> symbolEntry list" where
  "dedupeById entries = fold dedupeStep entries []"

text \<open>
  The Babel parser and its traversal are an external library.  The parameter \<open>parse\<close>
  stands for \<^verbatim>\<open>babelParser.parse\<close> followed by the four visitors: given the content, the
  path and the language it returns the array \<^verbatim>\<open>entries\<close> the visitors pushed, or \<open>None\<close>
  when the parser throws.
\<close>

type_synonym parser = "string \<Rightarrow> string \<Rightarrow> string \<Rightarrow> symbolEntry list option"

definition extractSymbolsFromContent ::
  "parser \<Rightarrow> string \<Rightarrow> string \<Rightarrow> string \<Rightarrow> symbolEntry list" where
  "extractSymbolsFromContent parse content relativePath language =
     (let isJs = (language = ''JavaScript'' \<or> language = ''TypeScript'')
      in if \<not> isJs then createFallbackSymbol content relativePath language
         else (case parse content relativePath language of
                 None \<Rightarrow> createFallbackSymbol content relativePath language
               | Some entries \<Rightarrow>
                   if entries = [] then createFallbackSymbol content relativePath language
                   else dedupeById entries))"

definition extractSymbolsForFile ::
  "host \<Rightarrow> parser \<Rightarrow> string \<Rightarrow> fileEntry \<Rightarrow> string \<Rightarrow> symbolEntry list" where
  "extractSymbolsForFile h parse rootPath file language =
     (let absPath = pathResolve h [rootPath, f_path file]
      in if node h absPath = Missing then []
         else if f_size file > MAX_FILE_BYTES then []
         else (case node h absPath of
                 File content \<Rightarrow> extractSymbolsFromContent parse content (f_path file) language
               | _ \<Rightarrow> []))"

subsection \<open>Export usage\<close>

record importDescriptor =
  imp_specifier :: string
  imp_names :: "string list"
  imp_hasNamespace :: bool

record dependencyEdge =
  dep_source :: string
  dep_target :: string
  dep_specifier :: string
  dep_kind :: string

text \<open>The map \<^verbatim>\<open>resolution\<close>, keyed by \<^verbatim>\<open>`${source}::${specifier}`\<close>.\<close>

definition buildResolution :: "dependencyEdge list \<Rightarrow> (string \<rightharpoonup> string)" where
  "buildResolution edges =
     fold (\<lambda>dep resolution.
             if dep_kind dep \<noteq> ''local'' then resolution
             else resolution(normalizePath (dep_source dep) @ ''::'' @ dep_specifier dep
                               \<mapsto> normalizePath (dep_target dep)))
          edges Map.empty"

text \<open>
  The state of the accounting: \<^verbatim>\<open>seenPerSource\<close>, a set of strings, and \<^verbatim>\<open>exportUsage\<close>, a
  map from \<^verbatim>\<open>`${target}#${name}`\<close> to the set of importing files.  The two callbacks of
  the source share the lines from the key to the insertion; they are \<open>credit\<close>.
\<close>

type_synonym usageState = "string set \<times> (string \<rightharpoonup> string set)"

definition credit :: "string \<Rightarrow> string \<Rightarrow> string \<Rightarrow> usageState \<Rightarrow> usageState" where
  "credit target name sourceFile st =
     (case st of (seenPerSource, exportUsage) \<Rightarrow>
        (let key = target @ ''#'' @ name;
             uniqueKey = key @ ''::'' @ sourceFile
         in if uniqueKey \<in> seenPerSource then st
            else (insert uniqueKey seenPerSource,
                  exportUsage(key \<mapsto>
                    insert sourceFile
                      (case exportUsage key of Some s \<Rightarrow> s | None \<Rightarrow> {})))))"

text \<open>The body of \<^verbatim>\<open>imports.forEach\<close>.  \<open>exportsByFile\<close> maps a file to its export names in
  insertion order.\<close>

definition importStep ::
  "(string \<rightharpoonup> string) \<Rightarrow> (string \<rightharpoonup> string list) \<Rightarrow> string \<Rightarrow> importDescriptor \<Rightarrow>
   usageState \<Rightarrow> usageState" where
  "importStep resolution exportsByFile sourceFile imp st =
     (case resolution (sourceFile @ ''::'' @ imp_specifier imp) of
        None \<Rightarrow> st
      | Some target \<Rightarrow>
          if target = [] then st
          else
            (let exportSet = (case exportsByFile target of Some s \<Rightarrow> s | None \<Rightarrow> [])
             in if imp_hasNamespace imp
                then fold (\<lambda>name. credit target name sourceFile) exportSet st
                else fold (\<lambda>name st'.
                             let exportName = (if name = [] then ''default'' else name)
                             in if exportName \<notin> set exportSet then st'
                                else credit target exportName sourceFile st')
                          (imp_names imp) st))"

text \<open>The body of \<^verbatim>\<open>importsByFile.forEach\<close>: a fresh \<^verbatim>\<open>seenPerSource\<close> for every importing
  file.\<close>

definition fileStep ::
  "(string \<rightharpoonup> string) \<Rightarrow> (string \<rightharpoonup> string list) \<Rightarrow> string \<times> importDescriptor list \<Rightarrow>
   (string \<rightharpoonup> string set) \<Rightarrow> (string \<rightharpoonup> string set)" where
  "fileStep resolution exportsByFile entry exportUsage =
     (case entry of (sourceFile, imports) \<Rightarrow>
        snd (fold (importStep resolution exportsByFile sourceFile) imports ({}, exportUsage)))"

definition exportUsageSets ::
  "(string \<times> importDescriptor list) list \<Rightarrow> (string \<rightharpoonup> string list) \<Rightarrow>
   dependencyEdge list \<Rightarrow> (string \<rightharpoonup> string set)" where
  "exportUsageSets importsByFile exportsByFile edges =
     fold (fileStep (buildResolution edges) exportsByFile) importsByFile Map.empty"

text \<open>The published object: \<^verbatim>\<open>[k, (set && set.size) || 0]\<close> for every entry.\<close>

definition exportUsage ::
  "(string \<times> importDescriptor list) list \<Rightarrow> (string \<rightharpoonup> string list) \<Rightarrow>
   dependencyEdge list \<Rightarrow> (string \<rightharpoonup> nat)" where
  "exportUsage importsByFile exportsByFile edges =
     map_option card \<circ> exportUsageSets importsByFile exportsByFile edges"

subsection \<open>Specification of export usage\<close>

text \<open>The names an import descriptor credits in a target with the given export set: all
  of them for a namespace import, else the imported names that are exported.\<close>

definition creditedNames :: "importDescriptor \<Rightarrow> string list \<Rightarrow> string set" where
  "creditedNames imp exportSet =
     (if imp_hasNamespace imp then set exportSet
      else set (imp_names imp) \<inter> set exportSet)"

text \<open>The keys \<^verbatim>\<open>target#name\<close> one import descriptor of \<open>sourceFile\<close> credits: the
  specifier must resolve, through the local dependency edges, to a target.\<close>

definition creditedKeys ::
  "dependencyEdge list \<Rightarrow> (string \<rightharpoonup> string list) \<Rightarrow> string \<Rightarrow> importDescriptor \<Rightarrow> string set"
  where
  "creditedKeys edges exportsByFile sourceFile imp =
     (case buildResolution edges (sourceFile @ ''::'' @ imp_specifier imp) of
        None \<Rightarrow> {}
      | Some target \<Rightarrow>
          if target = [] then {}
          else (\<lambda>name. target @ ''#'' @ name) `
                 creditedNames imp (case exportsByFile target of Some s \<Rightarrow> s | None \<Rightarrow> []))"

text \<open>The importer files that credit a key.\<close>

definition creditingImporters ::
  "(string \<times> importDescriptor list) list \<Rightarrow> (string \<rightharpoonup> string list) \<Rightarrow>
   dependencyEdge list \<Rightarrow> string \<Rightarrow> string set" where
  "creditingImporters importsByFile exportsByFile edges key =
     fst ` {entry \<in> set importsByFile.
              \<exists>imp \<in> set (snd entry). key \<in> creditedKeys edges exportsByFile (fst entry) imp}"

text \<open>Import descriptors as the extraction pass builds them: it never records an empty
  imported name.\<close>

definition namesPresent :: "(string \<times> importDescriptor list) list \<Rightarrow> bool" where
  "namesPresent importsByFile =
     list_all (\<lambda>entry. list_all (\<lambda>imp. [] \<notin> set (imp_names imp)) (snd entry)) importsByFile"

text \<open>The importers recorded for a key; none when the key is absent.\<close>

definition getSet :: "(string \<rightharpoonup> string set) \<Rightarrow> string \<Rightarrow> string set" where
  "getSet U k = (case U k of Some s \<Rightarrow> s | None \<Rightarrow> {})"

text \<open>Every stored set is finite and not empty.\<close>

definition wfUsage :: "(string \<rightharpoonup> string set) \<Rightarrow> bool" where
  "wfUsage U = (\<forall>k s. U k = Some s \<longrightarrow> finite s \<and> s \<noteq> {})"

text \<open>What \<^verbatim>\<open>seenPerSource\<close> records has been inserted.\<close>

definition seenInv :: "string \<Rightarrow> usageState \<Rightarrow> bool" where
  "seenInv src st = (\<forall>key. key @ ''::'' @ src \<in> fst st \<longrightarrow> src \<in> getSet (snd st) key)"

subsection \<open>Example project\<close>

definition exImports :: "(string \<times> importDescriptor list) list" where
  "exImports =
     [(''b.js'', [\<lparr>imp_specifier = ''./a.js'', imp_names = [''foo''], imp_hasNamespace = False\<rparr>,
                  \<lparr>imp_specifier = ''./a.js'', imp_names = [''foo'', ''qux''],
                    imp_hasNamespace = False\<rparr>]),
      (''c.js'', [\<lparr>imp_specifier = ''./a.js'', imp_names = [], imp_hasNamespace = True\<rparr>])]"

definition exExports :: "string \<rightharpoonup> string list" where
  "exExports = [''a.js'' \<mapsto> [''foo'', ''bar'']]"

definition exEdges :: "dependencyEdge list" where
  "exEdges =
     [\<lparr>dep_source = ''b.js'', dep_target = ''a.js'', dep_specifier = ''./a.js'',
       dep_kind = ''local''\<rparr>,
      \<lparr>dep_source = ''c.js'', dep_target = ''a.js'', dep_specifier = ''./a.js'',
       dep_kind = ''local''\<rparr>]"

subsection \<open>Example files\<close>

text \<open>A parser that throws on every input.\<close>

definition failingParser :: parser where
  "failingParser content relativePath language = None"

definition exNode :: "string \<Rightarrow> fsNode" where
  "exNode p =
     (if p = ''/proj/README.md'' then File (''# Title'' @ [newline] @ ''body'' @ [newline])
      else if p = ''/proj/empty.md'' then File []
      else if p = ''/proj/blank.js'' then File ('' '' @ [newline])
      else if p = ''/proj/broken.js'' then File (''function ('' @ [newline] @ ''}'')
      else Missing)"

definition exHost :: host where
  "exHost = \<lparr>cwd = ''/srv'', node = exNode\<rparr>"

definition exFile :: "string \<Rightarrow> string \<Rightarrow> nat \<Rightarrow> fileEntry" where
  "exFile p e n = \<lparr>f_path = p, f_name = p, f_ext = e, f_size = n\<rparr>"

section \<open>Smell detector\<close>

definition FUNCTION_KINDS :: "string set" where "FUNCTION_KINDS = {''function'', ''component''}"
definition CLASS_KINDS :: "string set" where "CLASS_KINDS = {''class''}"

definition LONG_FUNCTION_WARNING :: int where "LONG_FUNCTION_WARNING = 50"
definition LONG_FUNCTION_ERROR :: int where "LONG_FUNCTION_ERROR = 100"
definition PARAM_WARNING_THRESHOLD :: nat where "PARAM_WARNING_THRESHOLD = 5"
definition PARAM_ERROR_THRESHOLD :: nat where "PARAM_ERROR_THRESHOLD = 8"
definition BRANCH_WARNING_THRESHOLD :: nat where "BRANCH_WARNING_THRESHOLD = 15"
definition BRANCH_ERROR_THRESHOLD :: nat where "BRANCH_ERROR_THRESHOLD = 25"
definition LARGE_CLASS_METHOD_WARNING :: nat where "LARGE_CLASS_METHOD_WARNING = 15"
definition LARGE_CLASS_METHOD_ERROR :: nat where "LARGE_CLASS_METHOD_ERROR = 25"

record smellIssue =
  si_category :: string
  si_severity :: string
  si_type :: string
  si_path :: string
  si_message :: string
  si_symbolId :: string
  si_line :: "int option"

definition createIssue :: "symbolEntry \<Rightarrow> string \<Rightarrow> string \<Rightarrow> string \<Rightarrow> smellIssue" where
  "createIssue symbol severity type message =
     \<lparr>si_category = ''smell'', si_severity = severity, si_type = type,
      si_path = sym_path symbol, si_message = message, si_symbolId = sym_id symbol,
      si_line = (if sym_startLine symbol \<noteq> 0 then Some (sym_startLine symbol) else None)\<rparr>"

definition countLines :: "string \<Rightarrow> nat" where
  "countLines text = (if text = [] then 0 else length (splitLines text))"

definition computeLineSpan :: "symbolEntry \<Rightarrow> int" where
  "computeLineSpan symbol =
     (if sym_startLine symbol \<noteq> 0 \<and> sym_endLine symbol \<noteq> 0 \<and>
         sym_endLine symbol - sym_startLine symbol + 1 > 0
      then sym_endLine symbol - sym_startLine symbol + 1
      else int (countLines (sym_text symbol)))"

text \<open>\<^verbatim>\<open>/(?:\bif\b|\belse\s+if\b|\bfor\b|\bwhile\b|\bswitch\b|\bcase\b|\bcatch\b|&&|\|\|)/g\<close>\<close>

definition BRANCH_REGEX :: regex where
  "BRANCH_REGEX =
     [[Atom WordB, Atom (Lit ''if''), Atom WordB],
      [Atom WordB, Atom (Lit ''else''), Atom (Plus SpaceClass), Atom (Lit ''if''), Atom WordB],
      [Atom WordB, Atom (Lit ''for''), Atom WordB],
      [Atom WordB, Atom (Lit ''while''), Atom WordB],
      [Atom WordB, Atom (Lit ''switch''), Atom WordB],
      [Atom WordB, Atom (Lit ''case''), Atom WordB],
      [Atom WordB, Atom (Lit ''catch''), Atom WordB],
      [Atom (Lit ''&&'')],
      [Atom (Lit ''||'')]]"

definition countBranches :: "string \<Rightarrow> nat" where
  "countBranches text = (if text = [] then 0 else countMatches text BRANCH_REGEX)"

text \<open>
  \<^verbatim>\<open>/^[^{=>]*\(([^)]*)\)/m\<close> tried at the start of a line.  The first repetition runs over
  the characters other than \<^verbatim>\<open>{\<close>, \<^verbatim>\<open>=\<close> and \<^verbatim>\<open>>\<close>, line breaks among them, and gives
  characters back until it stands before an opening parenthesis that has a closing one
  somewhere after it; the group is the text between that parenthesis and the first
  closing one.
\<close>

definition signatureAt :: "string \<Rightarrow> string option" where
  "signatureAt rest =
     (let run = takeWhile (\<lambda>c. c \<notin> set ''{=>'') rest;
          opens = filter (\<lambda>p. run ! p = CHR ''('' \<and> CHR '')'' \<in> set (drop (Suc p) rest))
                         (rev [0 ..< length run])
      in case opens of
           [] \<Rightarrow> None
         | p # ps \<Rightarrow> Some (takeWhile (\<lambda>c. c \<noteq> CHR '')'') (drop (Suc p) rest)))"

text \<open>The first start of a line, from the left, at which the expression matches.\<close>

fun firstSignature :: "bool \<Rightarrow> string \<Rightarrow> string option" where
  "firstSignature atLineStart [] = None"
| "firstSignature atLineStart (c # cs) =
     (case (if atLineStart then signatureAt (c # cs) else None) of
        Some captured \<Rightarrow> Some captured
      | None \<Rightarrow> firstSignature (lineTerminator c) cs)"

definition countParameters :: "string \<Rightarrow> nat" where
  "countParameters text =
     (if text = [] then 0
      else (case firstSignature True text of
              None \<Rightarrow> 0
            | Some captured \<Rightarrow>
                length (filter (\<lambda>p. p \<noteq> [] \<and> take 3 p \<noteq> ''...'')
                               (map trim (splitOn (CHR '','') captured)))))"

text \<open>\<^verbatim>\<open>/\n\s*(?:async\s+)?(?:static\s+)?[A-Za-z_][\w]*\s*\(/g\<close>\<close>

definition METHOD_REGEX :: regex where
  "METHOD_REGEX =
     [[Atom (Lit [newline]), Atom (Star SpaceClass),
       Opt [Lit ''async'', Plus SpaceClass], Opt [Lit ''static'', Plus SpaceClass],
       Atom (One (OneOf ''ABCDEFGHIJKLMNOPQRSTUVWXYZabcdefghijklmnopqrstuvwxyz_'')),
       Atom (Star WordClass), Atom (Star SpaceClass), Atom (Lit ''('')]]"

definition countClassMethods :: "string \<Rightarrow> nat" where
  "countClassMethods text = (if text = [] then 0 else countMatches text METHOD_REGEX)"

text \<open>\<^verbatim>\<open>symbol.name || fallback\<close>\<close>

definition nameOr :: "symbolEntry \<Rightarrow> string \<Rightarrow> string" where
  "nameOr symbol fallback = (if sym_name symbol \<noteq> [] then sym_name symbol else fallback)"

definition detectFunctionSmells :: "symbolEntry \<Rightarrow> smellIssue list" where
  "detectFunctionSmells symbol =
     (let lineSpan = computeLineSpan symbol;
          branchCount = countBranches (sym_text symbol);
          paramCount = countParameters (sym_text symbol)
      in (if lineSpan \<ge> LONG_FUNCTION_WARNING then
            [createIssue symbol (if lineSpan \<ge> LONG_FUNCTION_ERROR then ''error'' else ''warning'')
               ''long-function''
               (nameOr symbol ''Anonymous function'' @ '' spans '' @ showNat (nat lineSpan)
                  @ '' lines. Consider extracting helpers.'')]
          else []) @
         (if paramCount \<ge> PARAM_WARNING_THRESHOLD then
            [createIssue symbol (if paramCount \<ge> PARAM_ERROR_THRESHOLD then ''warning'' else ''info'')
               ''many-parameters''
               (nameOr symbol ''Function'' @ '' takes '' @ showNat paramCount
                  @ '' parameters; consider using objects to group data.'')]
          else []) @
         (if branchCount \<ge> BRANCH_WARNING_THRESHOLD then
            [createIssue symbol (if branchCount \<ge> BRANCH_ERROR_THRESHOLD then ''error'' else ''warning'')
               ''branch-heavy''
               (nameOr symbol ''Function'' @ '' contains '' @ showNat branchCount
                  @ '' conditional/loop branches. Simplify control flow if possible.'')]
          else []))"

definition detectClassSmells :: "symbolEntry \<Rightarrow> smellIssue list" where
  "detectClassSmells symbol =
     (let lineSpan = computeLineSpan symbol;
          methodCount = countClassMethods (sym_text symbol)
      in (if lineSpan \<ge> LONG_FUNCTION_WARNING * 2 then
            [createIssue symbol (if lineSpan \<ge> LONG_FUNCTION_ERROR * 2 then ''error'' else ''warning'')
               ''large-class''
               (nameOr symbol ''Class'' @ '' spans '' @ showNat (nat lineSpan)
                  @ '' lines. Break responsibilities into smaller classes or components.'')]
          else []) @
         (if methodCount \<ge> LARGE_CLASS_METHOD_WARNING then
            [createIssue symbol
               (if methodCount \<ge> LARGE_CLASS_METHOD_ERROR then ''error'' else ''warning'')
               ''many-methods''
               (nameOr symbol ''Class'' @ '' exposes '' @ showNat methodCount
                  @ '' methods. Consider refactoring to reduce surface area.'')]
          else []))"

text \<open>The body of \<^verbatim>\<open>structureGraph.symbols.forEach\<close>, and the loop.\<close>

definition symbolSmells :: "symbolEntry \<Rightarrow> smellIssue list" where
  "symbolSmells symbol =
     (if sym_text symbol = [] \<or> sym_path symbol = [] then []
      else if sym_kind symbol \<in> FUNCTION_KINDS then detectFunctionSmells symbol
      else if sym_kind symbol \<in> CLASS_KINDS then detectClassSmells symbol
      else [])"

definition detectCodeSmells :: "symbolEntry list \<Rightarrow> smellIssue list" where
  "detectCodeSmells symbols = fold (\<lambda>symbol issues. issues @ symbolSmells symbol) symbols []"

subsection \<open>An example function\<close>

text \<open>A function of 120 lines: a head, 30 conditionals of three lines, 28 more
  statements and the closing brace.\<close>

definition branchBlock :: string where
  "branchBlock = ''  if (a) {'' @ [newline] @ ''    a();'' @ [newline] @ ''  }'' @ [newline]"

definition plainLine :: string where
  "plainLine = ''  a();'' @ [newline]"

definition longFunctionText :: string where
  "longFunctionText =
     ''function f(a) {'' @ [newline] @ concat (replicate 30 branchBlock)
       @ concat (replicate 28 plainLine) @ ''}''"

definition longFunction :: symbolEntry where
  "longFunction =
     \<lparr>sym_id = ''function:util.js#f'', sym_fileId = ''file:util.js'', sym_name = ''f'',
      sym_kind = ''function'', sym_path = ''util.js'', sym_language = ''JavaScript'',
      sym_startLine = 1, sym_endLine = 120, sym_text = longFunctionText\<rparr>"

section \<open>The source-snippet operation of the server\<close>

text \<open>The errors \<^verbatim>\<open>readSourceSnippet\<close> throws: the two it builds itself, with status codes 403
  and 400, and those of \<^verbatim>\<open>fs.statSync\<close> and \<^verbatim>\<open>fs.openSync\<close>.\<close>

datatype snippetError = AccessDenied | NotAFile | NoEntry | ReadFailure string

record snippet =
  sn_path :: string
  sn_size :: nat
  sn_content :: string
  sn_truncated :: bool

text \<open>\<^verbatim>\<open>absFile.startsWith(absRoot)\<close>\<close>

definition startsWith :: "string \<Rightarrow> string \<Rightarrow> bool" where
  "startsWith s p = (take (length p) s = p)"

definition readSourceSnippet :: "host \<Rightarrow> string \<Rightarrow> string \<Rightarrow> int \<Rightarrow> snippetError + snippet" where
  "readSourceSnippet h rootPath relativePath maxBytes =
     (let absRoot = pathResolve h [rootPath];
          absFile = pathResolve h [absRoot, relativePath]
      in if \<not> startsWith absFile absRoot then Inl AccessDenied
         else (case node h absFile of
                 Missing \<Rightarrow> Inl NoEntry
               | Directory \<Rightarrow> Inl NotAFile
               | Unreadable message \<Rightarrow> Inl (ReadFailure message)
               | File bytes \<Rightarrow>
                   (let limit = max 1024 (min maxBytes (512 * 1024));
                        size = min (nat limit) (length bytes);
                        content = take size bytes;
                        truncated = (length bytes > size)
                    in Inr \<lparr>sn_path = relativePath, sn_size = length bytes,
                            sn_content = content, sn_truncated = truncated\<rparr>)))"

text \<open>What the interface promises to guard: the resolved file is the root itself or lies
  below it, segment by segment.\<close>

definition segmentsOf :: "string \<Rightarrow> string list" where
  "segmentsOf p = normalizeSegments (splitOn (CHR ''/'') p)"

definition insideRoot :: "host \<Rightarrow> string \<Rightarrow> string \<Rightarrow> bool" where
  "insideRoot h rootPath relativePath =
     (let rootSegments = segmentsOf (pathResolve h [rootPath]);
          fileSegments = segmentsOf (pathResolve h [pathResolve h [rootPath], relativePath])
      in take (length rootSegments) fileSegments = rootSegments)"

text \<open>A host with a directory \<^verbatim>\<open>/srv/app\<close> and, beside it, \<^verbatim>\<open>/srv/app-secrets\<close>.\<close>

definition secretNode :: "string \<Rightarrow> fsNode" where
  "secretNode p =
     (if p = ''/srv/app/index.js'' then File ''let a = 1;''
      else if p = ''/srv/app-secrets/key.pem'' then File ''secret''
      else if p = ''/srv/app'' \<or> p = ''/srv/app-secrets'' \<or> p = ''/srv'' \<or> p = ''/'' then Directory
      else Missing)"

definition secretHost :: host where
  "secretHost = \<lparr>cwd = ''/srv'', node = secretNode\<rparr>"

section \<open>Verification of the clone detector\<close>

subsection \<open>Winnowing\<close>

lemma beats_irrefl: "\<not> beats x x"
  by (simp add: beats_def)

lemma beats_trans: "beats x y \<Longrightarrow> beats y z \<Longrightarrow> beats x z"
  by (auto simp: beats_def)

lemma beats_asym: "beats x y \<Longrightarrow> \<not> beats y x"
  by (auto simp: beats_def)

lemma beats_total: "fp_index x \<noteq> fp_index y \<Longrightarrow> beats x y \<or> beats y x"
  by (auto simp: beats_def)

lemma hd_filter_unique:
  assumes "x \<in> set xs" "P x" "\<And>y. y \<in> set xs \<Longrightarrow> P y \<Longrightarrow> y = x"
  shows "hd (filter P xs) = x"
proof -
  have "filter P xs \<noteq> []" using assms(1,2) by (auto simp: filter_empty_conv)
  then have "hd (filter P xs) \<in> set (filter P xs)" by (rule hd_in_set)
  then have "hd (filter P xs) \<in> set xs" "P (hd (filter P xs))" by simp_all
  then show ?thesis by (rule assms(3))
qed

lemma latestMin_eq:
  assumes "isBest window x"
  shows "latestMin window = x"
proof -
  have xin: "x \<in> set window" and best: "\<And>y. y \<in> set window \<Longrightarrow> y \<noteq> x \<Longrightarrow> beats x y"
    using assms by (auto simp: isBest_def)
  have le: "fp_hash x \<le> fp_hash y" if "y \<in> set window" for y
    using best[OF that] by (cases "y = x") (auto simp: beats_def)
  have m: "Min (fp_hash ` set window) = fp_hash x"
    by (rule Min_eqI) (use xin le in auto)
  let ?c = "filter (\<lambda>y. fp_hash y = fp_hash x) window"
  have xc: "x \<in> set ?c" using xin by simp
  have ile: "fp_index y \<le> fp_index x" if "y \<in> set ?c" for y
  proof -
    from that have y: "y \<in> set window" "fp_hash y = fp_hash x" by auto
    show ?thesis using best[OF y(1)] y(2) by (cases "y = x") (auto simp: beats_def)
  qed
  have i: "Max (fp_index ` set ?c) = fp_index x"
    by (rule Max_eqI) (use xc ile in auto)
  have uniq: "y = x" if "y \<in> set ?c" "fp_index y = fp_index x" for y
  proof (rule ccontr)
    assume ne: "y \<noteq> x"
    from that have y: "y \<in> set window" by auto
    from best[OF y ne] that(2) that(1) show False by (auto simp: beats_def)
  qed
  have "hd (filter (\<lambda>y. fp_index y = fp_index x) ?c) = x"
    using xc _ uniq by (rule hd_filter_unique) simp
  then show ?thesis unfolding latestMin_def Let_def m i .
qed

lemma isBest_unique:
  assumes "isBest w x" "isBest w y"
  shows "x = y"
proof (rule ccontr)
  assume ne: "x \<noteq> y"
  have "y \<in> set w" "x \<in> set w" using assms by (simp_all add: isBest_def)
  then have "beats x y" "beats y x" using ne assms by (simp_all add: isBest_def)
  then show False using beats_asym by blast
qed

lemma isBest_snoc:
  assumes "isBest w x" "fp_index c \<notin> fp_index ` set w"
  shows "isBest (w @ [c]) (if beats c x then c else x)"
proof (cases "beats c x")
  case True
  have "\<And>y. y \<in> set w \<Longrightarrow> y \<noteq> c \<Longrightarrow> beats c y"
  proof -
    fix y assume y: "y \<in> set w" "y \<noteq> c"
    show "beats c y"
    proof (cases "y = x")
      case True then show ?thesis using \<open>beats c x\<close> by simp
    next
      case False
      then have "beats x y" using assms(1) y(1) by (simp add: isBest_def)
      then show ?thesis using \<open>beats c x\<close> beats_trans by blast
    qed
  qed
  then show ?thesis using True by (simp add: isBest_def)
next
  case False
  have "fp_index c \<noteq> fp_index x" using assms by (auto simp: isBest_def)
  then have "beats x c" using False beats_total by blast
  then show ?thesis using False assms(1) by (simp add: isBest_def)
qed

lemma isBest_single: "isBest [c] c"
  by (simp add: isBest_def)

lemma reduceMin_snoc:
  "reduceMin (xs @ [c]) = (case reduceMin xs of None \<Rightarrow> Some c | Some b \<Rightarrow> if beats c b then Some c else Some b)"
  by (simp add: reduceMin_def)

lemma reduceMin_best:
  "hashes \<noteq> [] \<Longrightarrow> distinct (map fp_index hashes) \<Longrightarrow> \<exists>x. reduceMin hashes = Some x \<and> isBest hashes x"
proof (induction hashes rule: rev_induct)
  case Nil
  then show ?case by simp
next
  case (snoc c xs)
  show ?case
  proof (cases "xs = []")
    case True
    then show ?thesis by (simp add: reduceMin_def isBest_single)
  next
    case False
    from snoc have d: "distinct (map fp_index xs)" and nin: "fp_index c \<notin> fp_index ` set xs" by auto
    from snoc.IH[OF False d] obtain x where x: "reduceMin xs = Some x" "isBest xs x" by blast
    show ?thesis using isBest_snoc[OF x(2) nin] x(1)
      by (cases "beats c x") (simp_all add: reduceMin_snoc)
  qed
qed


lemma fp_eq_iff: "(x::fingerprint) = y \<longleftrightarrow> fp_hash x = fp_hash y \<and> fp_index x = fp_index y"
  by (cases x, cases y) simp

lemma pushFingerprint_remdups:
  "pushFingerprint (remdups_adj xs) c = remdups_adj (xs @ [c])"
proof (cases xs rule: rev_cases)
  case Nil
  then show ?thesis by (simp add: pushFingerprint_def)
next
  case (snoc ys l)
  have ne: "remdups_adj (ys @ [l]) \<noteq> []" by (simp add: remdups_adj_Nil_iff)
  have la: "last (remdups_adj (ys @ [l])) = l" by (simp add: last_remdups_adj)
  have "remdups_adj (ys @ [l, c]) = remdups_adj (ys @ [l]) @ (if l = c then [] else [c])"
    by (rule remdups_adj_append_two)
  then show ?thesis unfolding snoc pushFingerprint_def using ne la
    by (simp add: fp_eq_iff)
qed

lemma remdups_adj_snoc_last:
  "xs \<noteq> [] \<Longrightarrow> remdups_adj (xs @ [last xs]) = remdups_adj xs"
proof (cases xs rule: rev_cases)
  case Nil
  then show "xs \<noteq> [] \<Longrightarrow> ?thesis" by simp
next
  case (snoc ys l)
  have "remdups_adj (ys @ [l, l]) = remdups_adj (ys @ [l]) @ (if l = l then [] else [l])"
    by (rule remdups_adj_append_two)
  then show ?thesis unfolding snoc by simp
qed

lemma rescan_Suc:
  "s \<le> Suc e \<Longrightarrow> rescan hs s (Suc e) =
     (if beats (hs ! Suc e) (hs ! rescan hs s e) then Suc e else rescan hs s e)"
  by (simp add: rescan_def)

lemma rescan_self: "rescan hs s s = s"
  by (simp add: rescan_def)

lemma window_mem:
  assumes a: "s + k \<le> length hs"
  shows "x \<in> set (take k (drop s hs)) \<longleftrightarrow> (\<exists>j. s \<le> j \<and> j < s + k \<and> x = hs ! j)"
proof
  assume "x \<in> set (take k (drop s hs))"
  then obtain i where i: "i < length (take k (drop s hs))" "take k (drop s hs) ! i = x"
    by (auto simp: in_set_conv_nth)
  then have "i < k" using a by simp
  then have "x = hs ! (s + i)" using i a by simp
  then show "\<exists>j. s \<le> j \<and> j < s + k \<and> x = hs ! j"
    using \<open>i < k\<close> by (intro exI[of _ "s + i"]) simp
next
  assume "\<exists>j. s \<le> j \<and> j < s + k \<and> x = hs ! j"
  then obtain j where j: "s \<le> j" "j < s + k" "x = hs ! j" by blast
  have l: "j - s < length (take k (drop s hs))" using j a by simp
  have "take k (drop s hs) ! (j - s) = x" using j a by simp
  then show "x \<in> set (take k (drop s hs))" using l nth_mem by metis
qed

lemma index_inj:
  "distinct (map fp_index hs) \<Longrightarrow> i < length hs \<Longrightarrow> j < length hs \<Longrightarrow>
   fp_index (hs ! i) = fp_index (hs ! j) \<Longrightarrow> i = j"
  by (metis length_map nth_eq_iff_index_eq nth_map)

lemma rescan_best:
  assumes d: "distinct (map fp_index hs)"
  shows "s + k < length hs \<Longrightarrow>
         s \<le> rescan hs s (s + k) \<and> rescan hs s (s + k) \<le> s + k \<and>
         isBest (take (Suc k) (drop s hs)) (hs ! rescan hs s (s + k))"
proof (induction k)
  case 0
  then have "take (Suc 0) (drop s hs) = [hs ! s]"
    by (simp add: take_Suc_conv_app_nth)
  then show ?case by (simp add: rescan_self isBest_single)
next
  case (Suc k)
  let ?m = "rescan hs s (s + k)"
  let ?c = "hs ! (s + Suc k)"
  from Suc have IH: "s \<le> ?m" "?m \<le> s + k" "isBest (take (Suc k) (drop s hs)) (hs ! ?m)"
    by simp_all
  have tk: "take (Suc (Suc k)) (drop s hs) = take (Suc k) (drop s hs) @ [?c]"
    using Suc.prems by (simp add: take_Suc_conv_app_nth)
  have nin: "fp_index ?c \<notin> fp_index ` set (take (Suc k) (drop s hs))"
  proof
    assume "fp_index ?c \<in> fp_index ` set (take (Suc k) (drop s hs))"
    then obtain x where x: "x \<in> set (take (Suc k) (drop s hs))" "fp_index ?c = fp_index x" by blast
    have "s + Suc k \<le> length hs" using Suc.prems by simp
    from window_mem[OF this] x(1) obtain j where j: "x = hs ! j" "s \<le> j" "j < s + Suc k" by blast
    have "s + Suc k = j" using index_inj[OF d, of "s + Suc k" j] x(2) j Suc.prems by simp
    then show False using j by simp
  qed
  have r: "rescan hs s (s + Suc k) = (if beats ?c (hs ! ?m) then s + Suc k else ?m)"
    using rescan_Suc[of s "s + k" hs] by simp
  have "isBest (take (Suc (Suc k)) (drop s hs)) (if beats ?c (hs ! ?m) then ?c else hs ! ?m)"
    unfolding tk by (rule isBest_snoc[OF IH(3) nin])
  then show ?case using IH(1,2) unfolding r by (cases "beats ?c (hs ! ?m)") simp_all
qed


lemma slide:
  assumes d: "distinct (map fp_index hs)"
    and len: "s + Suc k < length hs"
    and sm: "s < rescan hs s (s + k)"
  shows "rescan hs (Suc s) (Suc s + k) =
         (if beats (hs ! (Suc s + k)) (hs ! rescan hs s (s + k)) then Suc s + k
          else rescan hs s (s + k))"
proof -
  let ?m = "rescan hs s (s + k)"
  let ?m' = "rescan hs (Suc s) (Suc s + k)"
  let ?c = "hs ! (Suc s + k)"
  let ?W = "take (Suc k) (drop s hs)"
  let ?V = "take k (drop (Suc s) hs)"
  have b: "s \<le> ?m" "?m \<le> s + k" "isBest ?W (hs ! ?m)"
    using rescan_best[OF d, of s k] len by simp_all
  have b': "Suc s \<le> ?m'" "?m' \<le> Suc s + k" "isBest (take (Suc k) (drop (Suc s) hs)) (hs ! ?m')"
    using rescan_best[OF d, of "Suc s" k] len by simp_all
  have lenW: "s + Suc k \<le> length hs" and lenV: "Suc s + k \<le> length hs" using len by simp_all
  have mV: "hs ! ?m \<in> set ?V"
    unfolding window_mem[OF lenV] using sm b(2) by (intro exI[of _ ?m]) simp
  have VW: "y \<in> set ?W" if "y \<in> set ?V" for y
  proof -
    from that obtain j where "Suc s \<le> j" "j < Suc s + k" "y = hs ! j"
      unfolding window_mem[OF lenV] by blast
    then show ?thesis unfolding window_mem[OF lenW] by (intro exI[of _ j]) simp
  qed
  have bV: "isBest ?V (hs ! ?m)"
    unfolding isBest_def
  proof (intro conjI ballI impI)
    show "hs ! ?m \<in> set ?V" by (rule mV)
  next
    fix y assume "y \<in> set ?V" "y \<noteq> hs ! ?m"
    then show "beats (hs ! ?m) y" using b(3) VW by (simp add: isBest_def)
  qed
  have nin: "fp_index ?c \<notin> fp_index ` set ?V"
  proof
    assume "fp_index ?c \<in> fp_index ` set ?V"
    then obtain x where x: "x \<in> set ?V" "fp_index ?c = fp_index x" by blast
    from x(1) obtain j where j: "Suc s \<le> j" "j < Suc s + k" "x = hs ! j"
      unfolding window_mem[OF lenV] by blast
    have "Suc s + k = j" using index_inj[OF d, of "Suc s + k" j] x(2) j len by simp
    then show False using j by simp
  qed
  have tk: "take (Suc k) (drop (Suc s) hs) = ?V @ [?c]"
    using len by (simp add: take_Suc_conv_app_nth)
  have "isBest (take (Suc k) (drop (Suc s) hs)) (if beats ?c (hs ! ?m) then ?c else hs ! ?m)"
    unfolding tk by (rule isBest_snoc[OF bV nin])
  from isBest_unique[OF b'(3) this]
  have e: "hs ! ?m' = (if beats ?c (hs ! ?m) then ?c else hs ! ?m)" .
  show ?thesis
  proof (cases "beats ?c (hs ! ?m)")
    case True
    then have "fp_index (hs ! ?m') = fp_index (hs ! (Suc s + k))" using e by simp
    then have "?m' = Suc s + k" using index_inj[OF d, of ?m' "Suc s + k"] b'(2) len by simp
    then show ?thesis using True by simp
  next
    case False
    then have "fp_index (hs ! ?m') = fp_index (hs ! ?m)" using e by simp
    then have "?m' = ?m" using index_inj[OF d, of ?m' ?m] b'(2) b(2) len by simp
    then show ?thesis using False by simp
  qed
qed

lemma winnowLoop_inv:
  assumes d: "distinct (map fp_index hs)"
  shows "n = length hs - (ws + k) \<Longrightarrow> ws + k \<le> length hs \<Longrightarrow> we = ws + k \<Longrightarrow>
         fps = remdups_adj (map (\<lambda>s. hs ! rescan hs s (s + k)) [0..<ws]) \<Longrightarrow>
         (ws = 0 \<longrightarrow> mi < 0) \<Longrightarrow>
         (0 < ws \<longrightarrow> mi = int (rescan hs (ws - 1) (ws - 1 + k))) \<Longrightarrow>
         winnowLoop hs ws we mi fps =
           remdups_adj (map (\<lambda>s. hs ! rescan hs s (s + k)) [0..<length hs - k])"
proof (induction n arbitrary: ws we mi fps)
  case 0
  then have "ws = length hs - k" "\<not> we < length hs" by simp_all
  then show ?case using 0 by (simp add: winnowLoop.simps)
next
  case (Suc n)
  let ?f = "\<lambda>s. hs ! rescan hs s (s + k)"
  from Suc.prems have lt: "we < length hs" and we: "we = ws + k" by simp_all
  have n': "n = length hs - (Suc ws + k)" and le': "Suc ws + k \<le> length hs"
    using Suc.prems by simp_all
  have step: "winnowLoop hs (Suc ws) (Suc we) (int m) (pushFingerprint fps (hs ! m)) =
              remdups_adj (map ?f [0..<length hs - k])"
    if m: "m = rescan hs ws (ws + k)" for m
  proof (rule Suc.IH[OF n' le'])
    show "Suc we = Suc ws + k" using we by simp
    show "pushFingerprint fps (hs ! m) = remdups_adj (map ?f [0..<Suc ws])"
      using Suc.prems(4) m by (simp add: pushFingerprint_remdups)
    show "Suc ws = 0 \<longrightarrow> int m < 0" by simp
    show "0 < Suc ws \<longrightarrow> int m = int (rescan hs (Suc ws - 1) (Suc ws - 1 + k))" using m by simp
  qed
  show ?case
  proof (cases "mi < int ws")
    case True
    then show ?thesis using lt step[OF refl] we
      by (subst winnowLoop.simps) (simp add: Let_def)
  next
    case False
    then have pos: "0 < ws" using Suc.prems(5) by (cases ws) auto
    then obtain s where s: "ws = Suc s" by (cases ws) auto
    have mi: "mi = int (rescan hs s (s + k))" using Suc.prems(6) s by simp
    let ?m = "rescan hs s (s + k)"
    have sm: "s < ?m" using False mi s by simp
    have len: "s + Suc k < length hs" using lt we s by simp
    have sl: "rescan hs ws (ws + k) = (if beats (hs ! we) (hs ! ?m) then we else ?m)"
      using slide[OF d len sm] s we by simp
    show ?thesis
    proof (cases "beats (hs ! we) (hs ! ?m)")
      case True
      then have "rescan hs ws (ws + k) = we" using sl by simp
      from step[OF this[symmetric]] show ?thesis using lt False True mi
        by (subst winnowLoop.simps) (simp add: Let_def)
    next
      case nb: False
      then have r: "rescan hs ws (ws + k) = ?m" using sl by simp
      have "winnowLoop hs (Suc ws) (Suc we) mi fps = remdups_adj (map ?f [0..<length hs - k])"
      proof (rule Suc.IH[OF n' le'])
        show "Suc we = Suc ws + k" using we by simp
        have "map ?f [0..<ws] \<noteq> []" using pos by simp
        moreover have "last (map ?f [0..<ws]) = ?f ws" using s r by (simp add: last_map)
        ultimately have "remdups_adj (map ?f [0..<ws] @ [?f ws]) = remdups_adj (map ?f [0..<ws])"
          using remdups_adj_snoc_last[of "map ?f [0..<ws]"] by simp
        then show "fps = remdups_adj (map ?f [0..<Suc ws])" using Suc.prems(4) by simp
        show "Suc ws = 0 \<longrightarrow> mi < 0" by simp
        show "0 < Suc ws \<longrightarrow> mi = int (rescan hs (Suc ws - 1) (Suc ws - 1 + k))" using mi r by simp
      qed
      then show ?thesis using lt False nb mi
        by (subst winnowLoop.simps) (simp add: Let_def)
    qed
  qed
qed

lemma winnow_long:
  assumes d: "distinct (map fp_index hs)" and w: "0 < w" "w < length hs"
  shows "winnow hs w =
           remdups_adj (map (\<lambda>s. latestMin (take w (drop s hs))) [0 ..< length hs - w + 1])"
proof -
  obtain k where k: "w = Suc k" using w(1) by (cases w) auto
  have e0: "winnow hs w = winnowLoop hs 0 k (- 1) []"
    using w k by (auto simp: winnow_def)
  have e1: "winnowLoop hs 0 k (- 1) [] =
          remdups_adj (map (\<lambda>s. hs ! rescan hs s (s + k)) [0 ..< length hs - k])"
    by (rule winnowLoop_inv[OF d refl]) (use w k in simp_all)
  have e2: "map (\<lambda>s. hs ! rescan hs s (s + k)) [0 ..< length hs - k] =
            map (\<lambda>s. latestMin (take w (drop s hs))) [0 ..< length hs - k]"
  proof (rule map_cong[OF refl])
    fix s assume "s \<in> set [0 ..< length hs - k]"
    then have "s + k < length hs" by auto
    from rescan_best[OF d this] have "isBest (take (Suc k) (drop s hs)) (hs ! rescan hs s (s + k))"
      by simp
    then show "hs ! rescan hs s (s + k) = latestMin (take w (drop s hs))"
      unfolding k by (rule latestMin_eq[symmetric])
  qed
  have e3: "length hs - k = length hs - w + 1" using w k by simp
  have "winnow hs w =
          remdups_adj (map (\<lambda>s. latestMin (take w (drop s hs))) [0 ..< length hs - k])"
    by (simp only: e0 e1 e2)
  then show ?thesis by (simp only: e3)
qed

lemma winnow_short:
  assumes d: "distinct (map fp_index hs)" and ne: "hs \<noteq> []" and w: "length hs \<le> w"
  shows "winnow hs w = [latestMin hs]"
proof -
  from reduceMin_best[OF ne d] obtain x where x: "reduceMin hs = Some x" "isBest hs x" by blast
  have "0 < w" using ne w by (cases hs) auto
  then show ?thesis using x ne w latestMin_eq[OF x(2)] by (simp add: winnow_def)
qed

lemma kgramHashes_indices: "map fp_index (kgramHashes toks k) = [0 ..< Suc (length toks - k)]"
  by (simp add: kgramHashes_def comp_def map_idI)

text \<open>
  Claim C3.  For a non-empty hash sequence whose entries carry pairwise different indices
  (the k-gram sequence carries its positions), winnowing with window size 4 returns, when
  the sequence has more than 4 entries, the sequence of the windows' fingerprints (for each
  window position the entry of minimum hash, the one with the largest index among equal
  hashes) with every fingerprint that repeats the one emitted just before it removed; and
  when the sequence has at most 4 entries, exactly the one fingerprint of the whole
  sequence under the same rule.  Being a function of its argument, the result is
  determined by the input.
\<close>

theorem winnow_emits_window_minima:
  assumes "hashes \<noteq> []" and "distinct (map fp_index hashes)"
  shows "winnow hashes WINDOW_SIZE =
           (if length hashes \<le> WINDOW_SIZE then [latestMin hashes]
            else remdups_adj
                   (map (\<lambda>s. latestMin (take WINDOW_SIZE (drop s hashes)))
                        [0 ..< length hashes - WINDOW_SIZE + 1]))"
proof (cases "length hashes \<le> WINDOW_SIZE")
  case True
  then show ?thesis using winnow_short[OF assms(2,1) True] by simp
next
  case False
  then have "WINDOW_SIZE < length hashes" by simp
  moreover have "0 < WINDOW_SIZE" by (simp add: WINDOW_SIZE_def)
  ultimately show ?thesis using winnow_long[OF assms(2)] False by simp
qed

theorem winnow_emits_window_minima_witness:
  "[fp 5 10, fp 3 11, fp 3 12, fp 7 13, fp 9 14, fp 2 15] \<noteq> [] \<and>
   distinct (map fp_index [fp 5 10, fp 3 11, fp 3 12, fp 7 13, fp 9 14, fp 2 15]) \<and>
   winnow [fp 5 10, fp 3 11, fp 3 12, fp 7 13, fp 9 14, fp 2 15] WINDOW_SIZE = [fp 3 12, fp 2 15] \<and>
   winnow [fp 5 10, fp 3 11, fp 3 12] WINDOW_SIZE = [fp 3 12]"
proof -
  let ?ex = "[fp 5 10, fp 3 11, fp 3 12, fp 7 13, fp 9 14, fp 2 15]"
  have ne: "?ex \<noteq> []" by simp
  have d1: "distinct (map fp_index ?ex)"
    by (simp add: fp_def)
  have d2: "distinct (map fp_index [fp 5 10, fp 3 11, fp 3 12])"
    by (simp add: fp_def)
  have up: "[0 ..< 3] = [0, 1, 2]" by (simp add: upt_rec)
  have w0: "latestMin [fp 5 10, fp 3 11, fp 3 12, fp 7 13] = fp 3 12"
    by (simp add: latestMin_def fp_def)
  have w1: "latestMin [fp 3 11, fp 3 12, fp 7 13, fp 9 14] = fp 3 12"
    by (simp add: latestMin_def fp_def)
  have w2: "latestMin [fp 3 12, fp 7 13, fp 9 14, fp 2 15] = fp 2 15"
    by (simp add: latestMin_def fp_def)
  have w3: "latestMin [fp 5 10, fp 3 11, fp 3 12] = fp 3 12"
    by (simp add: latestMin_def fp_def)
  have neq: "fp 3 12 \<noteq> fp 2 15" by (simp add: fp_def)
  have len: "\<not> length ?ex \<le> WINDOW_SIZE" by (simp add: WINDOW_SIZE_def)
  have n3: "length ?ex - WINDOW_SIZE + 1 = 3" by (simp add: WINDOW_SIZE_def)
  have m: "map (\<lambda>s. latestMin (take WINDOW_SIZE (drop s ?ex))) [0, 1, 2] =
           [fp 3 12, fp 3 12, fp 2 15]"
    by (simp add: WINDOW_SIZE_def w0 w1 w2)
  from winnow_emits_window_minima[OF ne d1]
  have "winnow ?ex WINDOW_SIZE =
          remdups_adj (map (\<lambda>s. latestMin (take WINDOW_SIZE (drop s ?ex)))
                           [0 ..< length ?ex - WINDOW_SIZE + 1])"
    by (simp only: len if_False)
  also have "\<dots> = remdups_adj [fp 3 12, fp 3 12, fp 2 15]"
    by (simp only: n3 up m)
  also have "\<dots> = [fp 3 12, fp 2 15]" using neq by simp
  finally have r1: "winnow ?ex WINDOW_SIZE = [fp 3 12, fp 2 15]" .
  have r2: "winnow [fp 5 10, fp 3 11, fp 3 12] WINDOW_SIZE = [fp 3 12]"
  proof -
    have "length [fp 5 10, fp 3 11, fp 3 12] \<le> WINDOW_SIZE" by (simp add: WINDOW_SIZE_def)
    with winnow_emits_window_minima[OF _ d2]
    show ?thesis by (simp add: w3)
  qed
  show ?thesis using ne d1 r1 r2 by blast
qed

subsection \<open>The comparison loops\<close>

lemma addClone_entriesOf:
  "entriesOf (addClone results source target similarity rng) x =
     entriesOf results x @ (if cs_id source = x then [entryFor target similarity rng] else [])"
  by (simp add: addClone_def entriesOf_def entryFor_def Let_def)

lemma comparePair_entriesOf:
  "entriesOf (comparePair a b threshold results) x =
     entriesOf results x @ contribution threshold x (a, b)"
  by (simp add: comparePair_def contribution_def Let_def addClone_entriesOf)

lemma fold_comparePair_entriesOf:
  "entriesOf (fold (\<lambda>(a, b). comparePair a b threshold) ps results) x =
     entriesOf results x @ concat (map (contribution threshold x) ps)"
proof (induction ps arbitrary: results)
  case Nil
  then show ?case by simp
next
  case (Cons p ps)
  obtain a b where p: "p = (a, b)" by (cases p)
  show ?case unfolding p by (simp add: Cons.IH comparePair_entriesOf)
qed

lemma innerLoop_closed:
  "innerLoop a bs threshold (results, c) =
     (let ps = take (MAX_PAIRS - c)
                 (filter (\<lambda>(a, b). languagesAreCompatible (cs_language a) (cs_language b))
                         (map (Pair a) bs))
      in (fold (\<lambda>(a, b). comparePair a b threshold) ps results, c + length ps))"
proof (induction bs arbitrary: results c)
  case Nil
  then show ?case by simp
next
  case (Cons b bs)
  show ?case
  proof (cases "c \<ge> MAX_PAIRS")
    case True
    then show ?thesis by simp
  next
    case False
    then obtain n where n: "MAX_PAIRS - c = Suc n" by (cases "MAX_PAIRS - c") auto
    then have n': "MAX_PAIRS - (c + 1) = n" by simp
    show ?thesis
    proof (cases "languagesAreCompatible (cs_language a) (cs_language b)")
      case True
      then show ?thesis using False n n' by (simp add: Cons.IH Let_def)
    next
      case nc: False
      then show ?thesis using False by (simp add: Cons.IH Let_def)
    qed
  qed
qed

lemma outerLoop_closed:
  "outerLoop symbols threshold (results, c) =
     (let ps = take (MAX_PAIRS - c)
                 (filter (\<lambda>(a, b). languagesAreCompatible (cs_language a) (cs_language b))
                         (pairsOf symbols))
      in (fold (\<lambda>(a, b). comparePair a b threshold) ps results, c + length ps))"
proof (induction symbols arbitrary: results c)
  case Nil
  then show ?case by simp
next
  case (Cons a rest)
  let ?C = "\<lambda>(a, b). languagesAreCompatible (cs_language a) (cs_language b)"
  let ?F1 = "filter ?C (map (Pair a) rest)"
  let ?F2 = "filter ?C (pairsOf rest)"
  let ?n = "MAX_PAIRS - c"
  have t: "take ?n (?F1 @ ?F2) = take ?n ?F1 @ take (?n - length ?F1) ?F2" by simp
  have m: "MAX_PAIRS - (c + length (take ?n ?F1)) = ?n - length ?F1" by auto
  show ?case
    by (simp only: outerLoop.simps innerLoop_closed Let_def Cons.IH pairsOf.simps
                   filter_append t m fold_append comp_apply length_append add.assoc)
qed

lemma findSymbolClones_fold:
  "findSymbolClones rootPath symbolEntries threshold =
     fold (\<lambda>(a, b). comparePair a b threshold)
          (comparedPairs (cloneCandidates rootPath symbolEntries)) Map.empty"
proof (cases "symbolEntries = []")
  case True
  then show ?thesis
    by (simp add: findSymbolClones_def cloneCandidates_def comparedPairs_def List.map_filter_simps)
next
  case False
  show ?thesis
  proof (cases "cloneCandidates rootPath symbolEntries = []")
    case True
    then show ?thesis using False by (simp add: findSymbolClones_def comparedPairs_def)
  next
    case ne: False
    then show ?thesis using False
      by (simp add: findSymbolClones_def comparedPairs_def outerLoop_closed Let_def)
  qed
qed

lemma findSymbolClones_entries:
  "entriesOf (findSymbolClones rootPath symbolEntries threshold) x =
     concat (map (contribution threshold x)
                 (comparedPairs (cloneCandidates rootPath symbolEntries)))"
proof -
  have "entriesOf Map.empty x = []" by (simp add: entriesOf_def)
  then show ?thesis by (simp add: findSymbolClones_fold fold_comparePair_entriesOf)
qed


lemma findSymbolClones_mem:
  "e \<in> set (entriesOf (findSymbolClones rootPath symbolEntries threshold) x) \<longleftrightarrow>
     (\<exists>p \<in> set (comparedPairs (cloneCandidates rootPath symbolEntries)).
        e \<in> set (contribution threshold x p))"
  by (auto simp: findSymbolClones_entries)

lemma findSymbolClones_dom:
  assumes "findSymbolClones rootPath symbolEntries threshold x = Some es"
  shows "\<exists>(a, b) \<in> set (comparedPairs (cloneCandidates rootPath symbolEntries)).
           cs_id a = x \<or> cs_id b = x"
proof -
  have g: "fold (\<lambda>(a, b). comparePair a b threshold) ps results x = Some es \<Longrightarrow>
           results x = None \<Longrightarrow> \<exists>(a, b) \<in> set ps. cs_id a = x \<or> cs_id b = x"
    for ps results
  proof (induction ps arbitrary: results)
    case Nil
    then show ?case by simp
  next
    case (Cons p ps)
    obtain a b where p: "p = (a, b)" by (cases p)
    show ?case
    proof (cases "cs_id a = x \<or> cs_id b = x")
      case True
      then show ?thesis unfolding p by auto
    next
      case False
      then have "comparePair a b threshold results x = None"
        using Cons.prems(2) by (auto simp: comparePair_def addClone_def Let_def)
      with Cons.IH[of "comparePair a b threshold results"] Cons.prems(1)
      show ?thesis unfolding p by auto
    qed
  qed
  show ?thesis using g[of _ Map.empty] assms by (simp add: findSymbolClones_fold)
qed

lemma pairsOf_mem: "(a, b) \<in> set (pairsOf xs) \<Longrightarrow> a \<in> set xs \<and> b \<in> set xs"
  by (induction xs) auto

lemma pairsOf_keys:
  "distinct (map f xs) \<Longrightarrow> (a, b) \<in> set (pairsOf xs) \<Longrightarrow> f a \<noteq> f b"
proof (induction xs)
  case Nil
  then show ?case by simp
next
  case (Cons x xs)
  then show ?case using pairsOf_mem[of a b xs] by (auto simp: image_iff)
qed

lemma pairsOf_not_swapped:
  "distinct (map f xs) \<Longrightarrow> (a, b) \<in> set (pairsOf xs) \<Longrightarrow> (a', b') \<in> set (pairsOf xs) \<Longrightarrow>
   f a = f b' \<Longrightarrow> f b = f a' \<Longrightarrow> False"
proof (induction xs)
  case Nil
  then show ?case by simp
next
  case (Cons x xs)
  have nin: "\<And>y. y \<in> set xs \<Longrightarrow> f y \<noteq> f x" using Cons.prems(1) by (auto simp: image_iff)
  from Cons.prems(2) have ab: "(a = x \<and> b \<in> set xs) \<or> (a, b) \<in> set (pairsOf xs)" by auto
  from Cons.prems(3) have ab': "(a' = x \<and> b' \<in> set xs) \<or> (a', b') \<in> set (pairsOf xs)" by auto
  from ab ab' show ?case
  proof (elim disjE conjE)
    assume "a = x" "b \<in> set xs" "a' = x" "b' \<in> set xs"
    then show False using Cons.prems(4) nin by metis
  next
    assume "a = x" "b \<in> set xs" "(a', b') \<in> set (pairsOf xs)"
    then show False using Cons.prems(4) nin pairsOf_mem[of a' b' xs] by metis
  next
    assume "(a, b) \<in> set (pairsOf xs)" "a' = x" "b' \<in> set xs"
    then show False using Cons.prems(5) nin pairsOf_mem[of a b xs] by metis
  next
    assume "(a, b) \<in> set (pairsOf xs)" "(a', b') \<in> set (pairsOf xs)"
    then show False using Cons.IH Cons.prems(1,4,5) by simp
  qed
qed

lemma pairsOf_same:
  "distinct (map f xs) \<Longrightarrow> (a, b) \<in> set (pairsOf xs) \<Longrightarrow> (a', b') \<in> set (pairsOf xs) \<Longrightarrow>
   f a = f a' \<Longrightarrow> f b = f b' \<Longrightarrow> a = a' \<and> b = b'"
proof -
  assume d: "distinct (map f xs)" and m: "(a, b) \<in> set (pairsOf xs)" "(a', b') \<in> set (pairsOf xs)"
    and e: "f a = f a'" "f b = f b'"
  have inj: "inj_on f (set xs)" using d by (simp add: distinct_map)
  from m have "a \<in> set xs" "b \<in> set xs" "a' \<in> set xs" "b' \<in> set xs"
    using pairsOf_mem by fast+
  then show ?thesis using inj e by (auto dest: inj_onD)
qed

lemma comparedPairs_subset: "p \<in> set (comparedPairs xs) \<Longrightarrow> p \<in> set (pairsOf xs)"
  unfolding comparedPairs_def by (auto dest: in_set_takeD)


lemma entryFor_sel [simp]:
  "ce_targetId (entryFor t s r) = cs_id t"
  "ce_similarity (entryFor t s r) = toFixed2 s"
  by (simp_all add: entryFor_def)

lemma contribution_cases:
  assumes "e \<in> set (contribution threshold x (a, b))"
  shows "pairSimilarity a b \<ge> threshold \<and> ce_similarity e = toFixed2 (pairSimilarity a b) \<and>
         ((cs_id a = x \<and> ce_targetId e = cs_id b) \<or> (cs_id b = x \<and> ce_targetId e = cs_id a))"
  using assms by (auto simp: contribution_def split: if_splits)

lemma contribution_forward:
  "pairSimilarity a b \<ge> threshold \<Longrightarrow>
   \<exists>e \<in> set (contribution threshold (cs_id a) (a, b)).
      ce_targetId e = cs_id b \<and> ce_similarity e = toFixed2 (pairSimilarity a b)"
  by (simp add: contribution_def)

lemma contribution_backward:
  "pairSimilarity a b \<ge> threshold \<Longrightarrow>
   \<exists>e \<in> set (contribution threshold (cs_id b) (a, b)).
      ce_targetId e = cs_id a \<and> ce_similarity e = toFixed2 (pairSimilarity a b)"
  by (auto simp: contribution_def)

lemma enrichSymbol_Some:
  assumes "enrichSymbol rootPath e = Some c"
  shows "cs_id c = sym_id e" "sym_id e \<noteq> []"
    "cs_tokens c = tm_tokens (tokenizeWithMeta (sym_text e))"
    "cs_tokenCounts c = buildTokenCounts (cs_tokens c)"
    "cs_tokenTotal c = length (cs_tokens c)"
    "MIN_TOKENS \<le> length (cs_tokens c)"
  using assms by (auto simp: enrichSymbol_def Let_def split: if_splits)

lemma cloneCandidates_mem:
  "c \<in> set (cloneCandidates rootPath es) \<longleftrightarrow>
     (\<exists>e \<in> set es. isFunctionLike e \<and> enrichSymbol rootPath e = Some c)"
  by (auto simp: cloneCandidates_def List.map_filter_def image_iff)

lemma cloneCandidates_ids:
  "map cs_id (cloneCandidates rootPath es) =
     map sym_id (filter (\<lambda>e. enrichSymbol rootPath e \<noteq> None) (filter isFunctionLike es))"
  unfolding cloneCandidates_def List.map_filter_def
  by (auto simp: enrichSymbol_Some(1))

lemma cloneCandidates_distinct:
  assumes "distinct (map sym_id (filter isFunctionLike es))"
  shows "distinct (map cs_id (cloneCandidates rootPath es))"
  unfolding cloneCandidates_ids using assms by (rule distinct_map_filter)

lemma findSymbolClones_memI:
  "p \<in> set (comparedPairs (cloneCandidates rootPath symbolEntries)) \<Longrightarrow>
   e \<in> set (contribution threshold x p) \<Longrightarrow>
   e \<in> set (entriesOf (findSymbolClones rootPath symbolEntries threshold) x)"
  unfolding findSymbolClones_mem by blast

text \<open>
  Claim C1.  Symbols are identified by their ids, and the ids of the function-like entries
  are pairwise different.  Then, for all ids \<open>x\<close> and \<open>y\<close>: the clones map holds an entry
  from \<open>x\<close> to \<open>y\<close> exactly when it holds one from \<open>y\<close> to \<open>x\<close>; any entry from \<open>x\<close> to
  \<open>y\<close> and any entry from \<open>y\<close> to \<open>x\<close> carry the same similarity; and no entry stored under
  \<open>x\<close> targets \<open>x\<close> itself.
\<close>

theorem clones_symmetric:
  assumes d: "distinct (map sym_id (filter isFunctionLike symbolEntries))"
  shows "((\<exists>e \<in> set (entriesOf (findSymbolClones rootPath symbolEntries threshold) x).
             ce_targetId e = y) \<longleftrightarrow>
          (\<exists>e \<in> set (entriesOf (findSymbolClones rootPath symbolEntries threshold) y).
             ce_targetId e = x)) \<and>
         (\<forall>e \<in> set (entriesOf (findSymbolClones rootPath symbolEntries threshold) x).
          \<forall>e' \<in> set (entriesOf (findSymbolClones rootPath symbolEntries threshold) y).
            ce_targetId e = y \<and> ce_targetId e' = x \<longrightarrow> ce_similarity e = ce_similarity e') \<and>
         (\<forall>e \<in> set (entriesOf (findSymbolClones rootPath symbolEntries threshold) x).
            ce_targetId e \<noteq> x)"
proof -
  let ?cands = "cloneCandidates rootPath symbolEntries"
  let ?L = "comparedPairs ?cands"
  let ?E = "\<lambda>x. set (entriesOf (findSymbolClones rootPath symbolEntries threshold) x)"
  have dc: "distinct (map cs_id ?cands)" by (rule cloneCandidates_distinct[OF d])
  have src: "\<exists>a b. (a, b) \<in> set ?L \<and> e \<in> set (contribution threshold u (a, b))"
    if "e \<in> ?E u" for e u
    using that unfolding findSymbolClones_mem by auto
  have half: "\<exists>e' \<in> ?E v. ce_targetId e' = u" if "e \<in> ?E u" "ce_targetId e = v" for e u v
  proof -
    from src[OF that(1)] obtain a b where ab: "(a, b) \<in> set ?L"
      "e \<in> set (contribution threshold u (a, b))" by blast
    note c = contribution_cases[OF ab(2)]
    from c have sim: "pairSimilarity a b \<ge> threshold" by simp
    from c that(2) consider "cs_id a = u" "cs_id b = v" | "cs_id b = u" "cs_id a = v" by auto
    then show ?thesis
    proof cases
      case 1
      from contribution_backward[OF sim] obtain e' where
        "e' \<in> set (contribution threshold (cs_id b) (a, b))" "ce_targetId e' = cs_id a" by blast
      then show ?thesis using findSymbolClones_memI[OF ab(1)] 1 by blast
    next
      case 2
      from contribution_forward[OF sim] obtain e' where
        "e' \<in> set (contribution threshold (cs_id a) (a, b))" "ce_targetId e' = cs_id b" by blast
      then show ?thesis using findSymbolClones_memI[OF ab(1)] 2 by blast
    qed
  qed
  have sym: "(\<exists>e \<in> ?E x. ce_targetId e = y) \<longleftrightarrow> (\<exists>e \<in> ?E y. ce_targetId e = x)"
    using half by blast
  have eq: "ce_similarity e = ce_similarity e'"
    if "e \<in> ?E x" "e' \<in> ?E y" "ce_targetId e = y" "ce_targetId e' = x" for e e'
  proof -
    from src[OF that(1)] obtain a b where ab: "(a, b) \<in> set ?L"
      "e \<in> set (contribution threshold x (a, b))" by blast
    from src[OF that(2)] obtain a' b' where ab': "(a', b') \<in> set ?L"
      "e' \<in> set (contribution threshold y (a', b'))" by blast
    note c = contribution_cases[OF ab(2)] and c' = contribution_cases[OF ab'(2)]
    have p: "(a, b) \<in> set (pairsOf ?cands)" "(a', b') \<in> set (pairsOf ?cands)"
      using ab(1) ab'(1) comparedPairs_subset by blast+
    have ne: "cs_id a \<noteq> cs_id b" by (rule pairsOf_keys[OF dc p(1)])
    have "cs_id a = cs_id a' \<and> cs_id b = cs_id b'"
    proof (rule ccontr)
      assume n: "\<not> (cs_id a = cs_id a' \<and> cs_id b = cs_id b')"
      from c c' that(3,4) have "cs_id a = cs_id b' \<and> cs_id b = cs_id a'"
        using n by auto
      then show False using pairsOf_not_swapped[OF dc p] by blast
    qed
    then have "a = a' \<and> b = b'" using pairsOf_same[OF dc p] by blast
    then show ?thesis using c c' by simp
  qed
  have noself: "ce_targetId e \<noteq> x" if "e \<in> ?E x" for e
  proof -
    from src[OF that] obtain a b where ab: "(a, b) \<in> set ?L"
      "e \<in> set (contribution threshold x (a, b))" by blast
    have "cs_id a \<noteq> cs_id b"
      using pairsOf_keys[OF dc] ab(1) comparedPairs_subset by blast
    then show ?thesis using contribution_cases[OF ab(2)] by auto
  qed
  show ?thesis using sym eq noself by blast
qed

section \<open>Verification of the overlap of two symbols\<close>

subsection \<open>Numbers\<close>

lemma power2_pos: "0 < power2 e"
  by (simp add: power2_def)

lemma roundHalfEven_nonneg: "0 \<le> m \<Longrightarrow> 0 \<le> roundHalfEven m"
  by (auto simp: roundHalfEven_def Let_def)

lemma toDouble_nonneg:
  assumes "0 \<le> x"
  shows "0 \<le> toDouble x"
proof (cases "x = 0")
  case True
  then show ?thesis by (simp add: toDouble_def)
next
  case False
  with assms have p: "0 < x" by simp
  define u where "u = power2 (max (exponentOf \<bar>x\<bar>) (- 1022) - 52)"
  have u: "0 < u" unfolding u_def by (rule power2_pos)
  have "0 \<le> \<bar>x\<bar> / u" using u by simp
  then have "0 \<le> roundHalfEven (\<bar>x\<bar> / u)" by (rule roundHalfEven_nonneg)
  then have "0 \<le> (of_int (roundHalfEven (\<bar>x\<bar> / u)) :: rat) * u" using u by simp
  then show ?thesis using p by (simp add: toDouble_def Let_def u_def)
qed

lemma toDouble_zero: "toDouble 0 = 0"
  by (simp add: toDouble_def)

text \<open>Evaluating \<^const>\<open>toDouble\<close> at a quotient of numerals.\<close>

lemma bitLength_numeral:
  "bitLength 0 = 0"
  "bitLength (Suc 0) = 1"
  "bitLength 1 = 1"
  "bitLength (numeral (Num.Bit0 k)) = Suc (bitLength (numeral k))"
  "bitLength (numeral (Num.Bit1 k)) = Suc (bitLength (numeral k))"
proof -
  show "bitLength 0 = 0" by (simp add: bitLength.simps)
  show s: "bitLength (Suc 0) = 1" by (simp add: bitLength.simps[of "Suc 0"] bitLength.simps[of 0])
  then show "bitLength 1 = 1" by simp
  have "numeral (Num.Bit0 k) div (2::nat) = numeral k" by simp
  then show "bitLength (numeral (Num.Bit0 k)) = Suc (bitLength (numeral k))"
    by (subst bitLength.simps) simp
  have "numeral (Num.Bit1 k) div (2::nat) = numeral k" by simp
  then show "bitLength (numeral (Num.Bit1 k)) = Suc (bitLength (numeral k))"
    by (subst bitLength.simps) simp
qed

lemma floor_rat_numeral:
  "\<lfloor>(numeral m / numeral n :: rat)\<rfloor> = numeral m div numeral n"
  using floor_divide_of_int_eq[of "numeral m" "numeral n", where ?'a = rat] by simp

lemma ceiling_rat_numeral:
  "\<lceil>(numeral m / numeral n :: rat)\<rceil> = - (- numeral m div numeral n)"
  using ceiling_divide_eq_div[of "numeral m" "numeral n", where ?'a = rat] by simp

lemmas toDouble_eval =
  toDouble_def exponentOf_def power2_def roundHalfEven_def Let_def
  bitLength_numeral floor_rat_numeral ceiling_rat_numeral

lemma toDouble_one: "toDouble 1 = 1"
  by (simp add: toDouble_eval)

text \<open>The double nearest to 23/40 lies below it, so two decimals give 0.57, not 0.58;
  5/8 is a double and a tie, and gives 0.63.\<close>

lemma toFixed2_below_tie: "toFixed2 (toDouble (23 / 40)) = toDouble (57 / 100)"
proof -
  have e: "toDouble (23 / 40) = 5179139571476070 / 9007199254740992"
    by (simp add: toDouble_eval)
  show ?thesis by (simp add: toFixed2_def e floor_rat_numeral)
qed

lemma toFixed2_at_tie: "toFixed2 (toDouble (5 / 8)) = toDouble (63 / 100)"
proof -
  have e: "toDouble (5 / 8) = 5 / 8" by (simp add: toDouble_eval)
  show ?thesis by (simp add: toFixed2_def e floor_rat_numeral)
qed

text \<open>Two decimals: the result denotes \<open>n / 100\<close> for the integer \<open>n\<close> nearest to \<open>100 x\<close>.\<close>

lemma toFixed2_rounded: "roundedToHundredths x (toFixed2 x)"
proof -
  define n where "n = \<lfloor>x * 100 + 1 / 2\<rfloor>"
  have "of_int n \<le> x * 100 + 1 / 2" and "x * 100 + 1 / 2 < of_int n + 1"
    unfolding n_def by linarith+
  then have "of_int n / 100 - 1 / 200 \<le> x \<and> x < of_int n / 100 + 1 / 200" by simp
  then show ?thesis unfolding roundedToHundredths_def toFixed2_def n_def[symmetric] by blast
qed

subsection \<open>Merging segments\<close>

lemma cover_append: "cover (xs @ ys) = cover xs \<union> cover ys"
  by (simp add: cover_def)

lemma cover_single: "cover [s] = positionsIn s"
  by (simp add: cover_def)

lemma cover_Cons: "cover (s # xs) = positionsIn s \<union> cover xs"
  by (simp add: cover_def)

lemma totalLength_append: "totalLength (xs @ ys) = totalLength xs + totalLength ys"
  by (simp add: totalLength_def)

lemma finite_cover: "finite (cover xs)"
  by (simp add: cover_def positionsIn_def)

lemma card_positionsIn:
  "seg_start s \<le> seg_end s \<Longrightarrow> int (card (positionsIn s)) = int (seg_end s) - int (seg_start s) + 1"
  by (simp add: positionsIn_def)

text \<open>The state of the merging loop: all but the last segment are settled and lie before
  the last one.\<close>

lemma merged_total:
  assumes ne: "ms \<noteq> []"
    and pr: "seg_start (last ms) \<le> seg_end (last ms)"
    and tot: "totalLength (butlast ms) = int (card (cover (butlast ms)))"
    and before: "\<forall>x \<in> cover (butlast ms). x < seg_start (last ms)"
  shows "totalLength ms = int (card (cover ms))"
proof -
  have ms: "ms = butlast ms @ [last ms]" using ne by simp
  have disj: "cover (butlast ms) \<inter> positionsIn (last ms) = {}"
    using before by (auto simp: positionsIn_def)
  have "cover ms = cover (butlast ms) \<union> positionsIn (last ms)"
    by (subst ms) (simp add: cover_append cover_single)
  then have "card (cover ms) = card (cover (butlast ms)) + card (positionsIn (last ms))"
    using disj by (simp add: card_Un_disjoint finite_cover positionsIn_def)
  moreover have "totalLength ms = totalLength (butlast ms) + totalLength [last ms]"
    by (subst ms) (simp only: totalLength_append)
  moreover have "totalLength [last ms] = int (card (positionsIn (last ms)))"
    using card_positionsIn[OF pr] by (simp add: totalLength_def)
  ultimately show ?thesis using tot by simp
qed

lemma fold_mergeStep:
  assumes "ms \<noteq> []"
    and "seg_start (last ms) \<le> seg_end (last ms)"
    and "totalLength (butlast ms) = int (card (cover (butlast ms)))"
    and "\<forall>x \<in> cover (butlast ms). x < seg_start (last ms)"
    and "\<forall>s \<in> set rs. seg_start s \<le> seg_end s"
    and "sorted (map seg_start (last ms # rs))"
  shows "totalLength (fold mergeStep rs ms) = int (card (cover (fold mergeStep rs ms))) \<and>
         cover (fold mergeStep rs ms) = cover ms \<union> cover rs \<and>
         fold mergeStep rs ms \<noteq> []"
  using assms
proof (induction rs arbitrary: ms)
  case Nil
  from merged_total[OF Nil(1-4)] Nil(1) show ?case by (simp add: cover_def)
next
  case (Cons r rs)
  let ?l = "last ms"
  have ms: "ms = butlast ms @ [?l]" using Cons.prems(1) by simp
  have cms: "cover ms = cover (butlast ms) \<union> positionsIn ?l"
    by (subst ms) (simp add: cover_append cover_single)
  have rp: "seg_start r \<le> seg_end r" using Cons.prems(5) by simp
  have lr: "seg_start ?l \<le> seg_start r" using Cons.prems(6) by simp
  have srt: "sorted (map seg_start (r # rs))" using Cons.prems(6) by simp
  have rsp: "\<forall>s \<in> set rs. seg_start s \<le> seg_end s" using Cons.prems(5) by simp
  show ?case
  proof (cases "seg_start r \<le> seg_end ?l + 1")
    case True
    define l' where "l' = ?l\<lparr>seg_end := max (seg_end ?l) (seg_end r)\<rparr>"
    have step: "mergeStep r ms = butlast ms @ [l']"
      using True by (simp add: mergeStep_def Let_def l'_def)
    have 1: "mergeStep r ms \<noteq> []" unfolding step by simp
    have la: "last (mergeStep r ms) = l'" and bl: "butlast (mergeStep r ms) = butlast ms"
      unfolding step by simp_all
    have st: "seg_start l' = seg_start ?l" and en: "seg_end l' = max (seg_end ?l) (seg_end r)"
      by (simp_all add: l'_def)
    have 2: "seg_start (last (mergeStep r ms)) \<le> seg_end (last (mergeStep r ms))"
      unfolding la st en using Cons.prems(2) by simp
    have 3: "totalLength (butlast (mergeStep r ms)) = int (card (cover (butlast (mergeStep r ms))))"
      unfolding bl by (rule Cons.prems(3))
    have 4: "\<forall>x \<in> cover (butlast (mergeStep r ms)). x < seg_start (last (mergeStep r ms))"
      unfolding bl la st by (rule Cons.prems(4))
    have 6: "sorted (map seg_start (last (mergeStep r ms) # rs))"
      unfolding la using srt lr st by auto
    have pos: "positionsIn l' = positionsIn ?l \<union> positionsIn r"
      unfolding positionsIn_def st en using True lr rp Cons.prems(2) by auto
    have cov: "cover (mergeStep r ms) = cover ms \<union> positionsIn r"
      unfolding step cms by (simp add: cover_append cover_single pos Un_assoc)
    from Cons.IH[OF 1 2 3 4 rsp 6] show ?thesis
      by (simp add: cov cover_Cons Un_assoc)
  next
    case False
    have same: "\<lparr>seg_start = seg_start r, seg_end = seg_end r\<rparr> = r" by simp
    have step: "mergeStep r ms = ms @ [r]"
      using False by (simp add: mergeStep_def Let_def same)
    have 1: "mergeStep r ms \<noteq> []" unfolding step by simp
    have la: "last (mergeStep r ms) = r" and bl: "butlast (mergeStep r ms) = ms"
      unfolding step by simp_all
    have 3: "totalLength (butlast (mergeStep r ms)) = int (card (cover (butlast (mergeStep r ms))))"
      unfolding bl by (rule merged_total[OF Cons.prems(1-4)])
    have 4: "\<forall>x \<in> cover (butlast (mergeStep r ms)). x < seg_start (last (mergeStep r ms))"
      unfolding bl la
    proof
      fix x assume "x \<in> cover ms"
      then have "x \<in> cover (butlast ms) \<or> x \<in> positionsIn ?l" unfolding cms by simp
      then have "x \<le> seg_end ?l"
        using Cons.prems(4) Cons.prems(2) by (auto simp: positionsIn_def)
      then show "x < seg_start r" using False by simp
    qed
    have 2: "seg_start (last (mergeStep r ms)) \<le> seg_end (last (mergeStep r ms))"
      unfolding la by (rule rp)
    have 6: "sorted (map seg_start (last (mergeStep r ms) # rs))"
      unfolding la by (rule srt)
    have cov: "cover (mergeStep r ms) = cover ms \<union> positionsIn r"
      unfolding step by (simp add: cover_append cover_single)
    from Cons.IH[OF 1 2 3 4 rsp 6] show ?thesis
      by (simp add: cov cover_Cons Un_assoc)
  qed
qed

lemma mergeSegments_total:
  assumes "\<forall>s \<in> set segs. seg_start s \<le> seg_end s"
  shows "totalLength (mergeSegments segs) = int (card (cover segs))"
    and "segs \<noteq> [] \<Longrightarrow> mergeSegments segs \<noteq> []"
proof -
  show "totalLength (mergeSegments segs) = int (card (cover segs))"
  proof (cases "segs = []")
    case True
    then show ?thesis by (simp add: mergeSegments_def totalLength_def cover_def)
  next
    case False
    define sorted_segs where "sorted_segs = sort_key seg_start segs"
    have ne: "sorted_segs \<noteq> []" using False
      by (metis sorted_segs_def length_sort list.size(3) length_0_conv)
    then have split: "sorted_segs = hd sorted_segs # tl sorted_segs" by simp
    have set_eq: "set sorted_segs = set segs" by (simp add: sorted_segs_def)
    have srt: "sorted (map seg_start sorted_segs)" by (simp add: sorted_segs_def)
    have 2: "seg_start (last [hd sorted_segs]) \<le> seg_end (last [hd sorted_segs])"
      using assms set_eq ne by (metis hd_in_set last.simps)
    have 5: "\<forall>s \<in> set (tl sorted_segs). seg_start s \<le> seg_end s"
      using assms set_eq ne by (metis list.set_sel(2))
    have 6: "sorted (map seg_start (last [hd sorted_segs] # tl sorted_segs))"
      using srt split by (metis last.simps)
    have "totalLength (fold mergeStep (tl sorted_segs) [hd sorted_segs]) =
            int (card (cover (fold mergeStep (tl sorted_segs) [hd sorted_segs]))) \<and>
          cover (fold mergeStep (tl sorted_segs) [hd sorted_segs]) =
            cover [hd sorted_segs] \<union> cover (tl sorted_segs) \<and>
          fold mergeStep (tl sorted_segs) [hd sorted_segs] \<noteq> []"
      by (rule fold_mergeStep[OF _ 2 _ _ 5 6]) (simp_all add: totalLength_def cover_def)
    moreover have "cover [hd sorted_segs] \<union> cover (tl sorted_segs) = cover segs"
    proof -
      have "cover [hd sorted_segs] \<union> cover (tl sorted_segs) = cover (hd sorted_segs # tl sorted_segs)"
        by (simp add: cover_def)
      also have "\<dots> = cover sorted_segs" using split by simp
      also have "\<dots> = cover segs" by (simp add: cover_def set_eq)
      finally show ?thesis .
    qed
    ultimately show ?thesis using False
      by (simp add: mergeSegments_def Let_def sorted_segs_def)
  qed
  show "mergeSegments segs \<noteq> []" if "segs \<noteq> []"
  proof -
    define sorted_segs where "sorted_segs = sort_key seg_start segs"
    have ne: "sorted_segs \<noteq> []" using that
      by (metis sorted_segs_def length_sort list.size(3) length_0_conv)
    then have split: "sorted_segs = hd sorted_segs # tl sorted_segs" by simp
    have set_eq: "set sorted_segs = set segs" by (simp add: sorted_segs_def)
    have srt: "sorted (map seg_start sorted_segs)" by (simp add: sorted_segs_def)
    have 2: "seg_start (last [hd sorted_segs]) \<le> seg_end (last [hd sorted_segs])"
      using assms set_eq ne by (metis hd_in_set last.simps)
    have 5: "\<forall>s \<in> set (tl sorted_segs). seg_start s \<le> seg_end s"
      using assms set_eq ne by (metis list.set_sel(2))
    have 6: "sorted (map seg_start (last [hd sorted_segs] # tl sorted_segs))"
      using srt split by (metis last.simps)
    have "totalLength (fold mergeStep (tl sorted_segs) [hd sorted_segs]) =
            int (card (cover (fold mergeStep (tl sorted_segs) [hd sorted_segs]))) \<and>
          cover (fold mergeStep (tl sorted_segs) [hd sorted_segs]) =
            cover [hd sorted_segs] \<union> cover (tl sorted_segs) \<and>
          fold mergeStep (tl sorted_segs) [hd sorted_segs] \<noteq> []"
      by (rule fold_mergeStep[OF _ 2 _ _ 5 6]) (simp_all add: totalLength_def cover_def)
    then show ?thesis using that by (simp add: mergeSegments_def Let_def sorted_segs_def)
  qed
qed


subsection \<open>Extending a match\<close>

lemma commonPrefix_Nil: "commonPrefix [] ys = 0" "commonPrefix xs [] = 0"
  by (simp_all add: commonPrefix_def)

lemma commonPrefix_Cons:
  "commonPrefix (x # xs) (y # ys) = (if x = y then Suc (commonPrefix xs ys) else 0)"
  by (simp add: commonPrefix_def)

lemma extendLeft_common:
  assumes "i \<le> length A" and "j \<le> length B"
  shows "extendLeft A B i j =
           (i - commonPrefix (rev (take i A)) (rev (take j B)),
            j - commonPrefix (rev (take i A)) (rev (take j B)))"
  using assms
proof (induction A B i j rule: extendLeft.induct)
  case (1 tokensA tokensB sB)
  then show ?case by (simp add: commonPrefix_Nil)
next
  case (2 tokensA tokensB sA)
  then show ?case by (simp add: commonPrefix_Nil)
next
  case (3 tokensA tokensB sA sB)
  from 3(2,3) have a: "sA < length tokensA" and b: "sB < length tokensB" by simp_all
  have ra: "rev (take (Suc sA) tokensA) = tokensA ! sA # rev (take sA tokensA)"
    using a by (simp add: take_Suc_conv_app_nth)
  have rb: "rev (take (Suc sB) tokensB) = tokensB ! sB # rev (take sB tokensB)"
    using b by (simp add: take_Suc_conv_app_nth)
  show ?case
  proof (cases "tokensA ! sA = tokensB ! sB")
    case True
    then have e: "elemAt tokensA sA = elemAt tokensB sB" using a b by (simp add: elemAt_def)
    from 3(1)[OF e] a b
    have "extendLeft tokensA tokensB sA sB =
            (sA - commonPrefix (rev (take sA tokensA)) (rev (take sB tokensB)),
             sB - commonPrefix (rev (take sA tokensA)) (rev (take sB tokensB)))" by simp
    then show ?thesis using e True by (simp add: ra rb commonPrefix_Cons)
  next
    case False
    then have e: "elemAt tokensA sA \<noteq> elemAt tokensB sB" using a b by (simp add: elemAt_def)
    then show ?thesis using False by (simp add: ra rb commonPrefix_Cons)
  qed
qed

lemma extendRight_common:
  "extendRight A B eA eB =
     (eA + commonPrefix (drop (eA + 1) A) (drop (eB + 1) B),
      eB + commonPrefix (drop (eA + 1) A) (drop (eB + 1) B))"
proof (induction A B eA eB rule: extendRight.induct)
  case (1 tokensA tokensB eA eB)
  show ?case
  proof (cases "eA + 1 < length tokensA \<and> eB + 1 < length tokensB")
    case True
    then have a: "eA + 1 < length tokensA" and b: "eB + 1 < length tokensB" by simp_all
    have da: "drop (eA + 1) tokensA = tokensA ! (eA + 1) # drop (eA + 1 + 1) tokensA"
      using a by (metis Cons_nth_drop_Suc Suc_eq_plus1)
    have db: "drop (eB + 1) tokensB = tokensB ! (eB + 1) # drop (eB + 1 + 1) tokensB"
      using b by (metis Cons_nth_drop_Suc Suc_eq_plus1)
    show ?thesis
    proof (cases "tokensA ! (eA + 1) = tokensB ! (eB + 1)")
      case eq: True
      then have c: "eA + 1 < length tokensA \<and> eB + 1 < length tokensB \<and>
                    elemAt tokensA (eA + 1) = elemAt tokensB (eB + 1)"
        using a b by (simp add: elemAt_def)
      have cp: "commonPrefix (drop (eA + 1) tokensA) (drop (eB + 1) tokensB) =
                Suc (commonPrefix (drop (eA + 1 + 1) tokensA) (drop (eB + 1 + 1) tokensB))"
      proof -
        have "commonPrefix (drop (eA + 1) tokensA) (drop (eB + 1) tokensB) =
              commonPrefix (tokensA ! (eA + 1) # drop (eA + 1 + 1) tokensA)
                           (tokensB ! (eB + 1) # drop (eB + 1 + 1) tokensB)"
          by (rule arg_cong2[OF da db])
        also have "\<dots> = Suc (commonPrefix (drop (eA + 1 + 1) tokensA) (drop (eB + 1 + 1) tokensB))"
          unfolding commonPrefix_Cons using eq by (rule if_P)
        finally show ?thesis .
      qed
      have "extendRight tokensA tokensB eA eB = extendRight tokensA tokensB (eA + 1) (eB + 1)"
        by (subst extendRight.simps) (rule if_P[OF c])
      also note 1[OF c]
      finally show ?thesis unfolding cp by simp
    next
      case ne: False
      then have c: "\<not> (eA + 1 < length tokensA \<and> eB + 1 < length tokensB \<and>
                    elemAt tokensA (eA + 1) = elemAt tokensB (eB + 1))"
        using a b by (simp add: elemAt_def)
      have cp: "commonPrefix (drop (eA + 1) tokensA) (drop (eB + 1) tokensB) = 0"
      proof -
        have "commonPrefix (drop (eA + 1) tokensA) (drop (eB + 1) tokensB) =
              commonPrefix (tokensA ! (eA + 1) # drop (eA + 1 + 1) tokensA)
                           (tokensB ! (eB + 1) # drop (eB + 1 + 1) tokensB)"
          by (rule arg_cong2[OF da db])
        also have "\<dots> = 0"
          unfolding commonPrefix_Cons using ne by (rule if_not_P)
        finally show ?thesis .
      qed
      have "extendRight tokensA tokensB eA eB = (eA, eB)"
        by (subst extendRight.simps) (rule if_not_P[OF c])
      then show ?thesis unfolding cp by simp
    qed
  next
    case False
    then have "drop (eA + 1) tokensA = [] \<or> drop (eB + 1) tokensB = []" by auto
    then have z: "commonPrefix (drop (eA + 1) tokensA) (drop (eB + 1) tokensB) = 0"
      by (auto simp: commonPrefix_Nil)
    from False have c: "\<not> (eA + 1 < length tokensA \<and> eB + 1 < length tokensB \<and>
                    elemAt tokensA (eA + 1) = elemAt tokensB (eB + 1))" by blast
    have "extendRight tokensA tokensB eA eB = (eA, eB)"
      by (subst extendRight.simps) (rule if_not_P[OF c])
    then show ?thesis unfolding z by simp
  qed
qed

text \<open>The segment of the first symbol, and that of the second, for a pair of positions.\<close>

lemma extendMatch_common:
  "extendMatch A B i j SHINGLE_SIZE =
     (if extendable A B (i, j)
      then Some \<lparr>startA = i - commonPrefix (rev (take i A)) (rev (take j B)),
                 endA = i + SHINGLE_SIZE - 1
                          + commonPrefix (drop (i + SHINGLE_SIZE) A) (drop (j + SHINGLE_SIZE) B),
                 startB = j - commonPrefix (rev (take i A)) (rev (take j B)),
                 endB = j + SHINGLE_SIZE - 1
                          + commonPrefix (drop (i + SHINGLE_SIZE) A) (drop (j + SHINGLE_SIZE) B)\<rparr>
      else None)"
proof (cases "extendable A B (i, j)")
  case True
  then have a: "i + 3 \<le> length A" and b: "j + 3 \<le> length B"
    by (simp_all add: extendable_def SHINGLE_SIZE_def)
  then have l: "i \<le> length A" "j \<le> length B" by simp_all
  have lim: "\<not> min (int (length A) - int i) (int (length B) - int j) < 3" using a b by simp
  show ?thesis
    using True lim
    by (simp add: extendMatch_def Let_def SHINGLE_SIZE_def extendLeft_common[OF l]
          extendRight_common numeral_3_eq_3)
next
  case False
  then have "min (int (length A) - int i) (int (length B) - int j) < 3"
    by (auto simp: extendable_def SHINGLE_SIZE_def)
  then show ?thesis using False by (simp add: extendMatch_def Let_def SHINGLE_SIZE_def)
qed


subsection \<open>The index pairs that are looked at\<close>

lemma firstOccurrences_snoc:
  "firstOccurrences (xs @ [x]) =
     (if x \<in> set xs then firstOccurrences xs else firstOccurrences xs @ [x])"
  by (simp add: firstOccurrences_def)

lemma set_firstOccurrences: "set (firstOccurrences xs) = set xs"
  by (simp add: firstOccurrences_def)

lemma fold_pairs: "fold (\<lambda>p. f (fst p) (snd p)) (map (Pair i) js) st = fold (f i) js st"
  by (induction js arbitrary: st) simp_all

lemma fold_concat_map: "fold g (concat (map h xs)) st = fold (\<lambda>x. fold g (h x)) xs st"
  by (induction xs arbitrary: st) simp_all

lemma fold_nested:
  "fold (\<lambda>p. f (fst p) (snd p)) (concat (map (\<lambda>i. map (Pair i) (js i)) is)) st =
   fold (\<lambda>i. fold (f i) (js i)) is st"
  by (induction "is" arbitrary: st) (simp_all add: fold_pairs)

lemma fold_sharedPositions:
  "fold (\<lambda>p. matchStep a b (fst p) (snd p)) (sharedPositions a b) st =
   fold (\<lambda>hash.
           fold (\<lambda>idxA.
                   fold (\<lambda>idxB. matchStep a b idxA idxB)
                        (positionsOf (cs_fingerprintIndex b) hash))
                (positionsOf (cs_fingerprintIndex a) hash))
        (filter (\<lambda>hash. hash \<in> set (cs_fingerprintHashes b)) (cs_fingerprintHashes a)) st"
  unfolding sharedPositions_def fold_concat_map fold_pairs ..

lemma matchSegmentA_positions: "positionsIn (matchSegmentA A B p) = extentA A B p"
  by (simp add: positionsIn_def matchSegmentA_def extentA_def)

lemma matchSegmentA_proper: "seg_start (matchSegmentA A B p) \<le> seg_end (matchSegmentA A B p)"
  by (simp add: matchSegmentA_def SHINGLE_SIZE_def)

lemma matchStep_effect:
  "matchStep a b i j st =
     (if length (seenPairs st) \<ge> MAX_MATCHES_PER_PAIR \<or> (i, j) \<in> set (seenPairs st) then st
      else if extendable (cs_tokens a) (cs_tokens b) (i, j)
      then st\<lparr>seenPairs := seenPairs st @ [(i, j)],
              segmentsA := segmentsA st @ [matchSegmentA (cs_tokens a) (cs_tokens b) (i, j)],
              segmentsB :=
                segmentsB st @
                [\<lparr>seg_start = j - commonPrefix (rev (take i (cs_tokens a))) (rev (take j (cs_tokens b))),
                  seg_end = j + SHINGLE_SIZE - 1
                              + commonPrefix (drop (i + SHINGLE_SIZE) (cs_tokens a))
                                             (drop (j + SHINGLE_SIZE) (cs_tokens b))\<rparr>]\<rparr>
      else st\<lparr>seenPairs := seenPairs st @ [(i, j)]\<rparr>)"
  by (simp add: matchStep_def extendMatch_common matchSegmentA_def Let_def)

lemma fold_matchStep:
  fixes a b ps
  defines "st \<equiv> fold (\<lambda>p. matchStep a b (fst p) (snd p)) ps
                   \<lparr>seenPairs = [], segmentsA = [], segmentsB = []\<rparr>"
  shows "seenPairs st = take MAX_MATCHES_PER_PAIR (firstOccurrences ps) \<and>
         set (segmentsA st) =
           matchSegmentA (cs_tokens a) (cs_tokens b) `
             {p \<in> set (seenPairs st). extendable (cs_tokens a) (cs_tokens b) p} \<and>
         length (segmentsA st) = length (segmentsB st)"
  unfolding st_def
proof (induction ps rule: rev_induct)
  case Nil
  show ?case by (simp add: firstOccurrences_def)
next
  case (snoc p ps)
  define s where "s = fold (\<lambda>p. matchStep a b (fst p) (snd p)) ps
                        \<lparr>seenPairs = [], segmentsA = [], segmentsB = []\<rparr>"
  from snoc[folded s_def]
  have seen: "seenPairs s = take MAX_MATCHES_PER_PAIR (firstOccurrences ps)"
    and segs: "set (segmentsA s) =
           matchSegmentA (cs_tokens a) (cs_tokens b) `
             {p \<in> set (seenPairs s). extendable (cs_tokens a) (cs_tokens b) p}"
    and len: "length (segmentsA s) = length (segmentsB s)" by simp_all
  obtain i j where p: "p = (i, j)" by (cases p)
  have step: "fold (\<lambda>p. matchStep a b (fst p) (snd p)) (ps @ [p])
                \<lparr>seenPairs = [], segmentsA = [], segmentsB = []\<rparr> = matchStep a b i j s"
    by (simp add: s_def p)
  show ?case unfolding step
  proof (cases "length (seenPairs s) \<ge> MAX_MATCHES_PER_PAIR")
    case True
    then have full: "MAX_MATCHES_PER_PAIR \<le> length (firstOccurrences ps)"
      unfolding seen by simp
    have "take MAX_MATCHES_PER_PAIR (firstOccurrences (ps @ [p])) =
          take MAX_MATCHES_PER_PAIR (firstOccurrences ps)"
      using full by (simp add: firstOccurrences_snoc)
    then show "seenPairs (matchStep a b i j s) =
                 take MAX_MATCHES_PER_PAIR (firstOccurrences (ps @ [p])) \<and>
               set (segmentsA (matchStep a b i j s)) =
                 matchSegmentA (cs_tokens a) (cs_tokens b) `
                   {p \<in> set (seenPairs (matchStep a b i j s)).
                      extendable (cs_tokens a) (cs_tokens b) p} \<and>
               length (segmentsA (matchStep a b i j s)) = length (segmentsB (matchStep a b i j s))"
      using True seen segs len by (simp add: matchStep_effect)
  next
    case False
    then have short: "length (firstOccurrences ps) < MAX_MATCHES_PER_PAIR"
      unfolding seen by simp
    then have all: "seenPairs s = firstOccurrences ps" unfolding seen by simp
    show "seenPairs (matchStep a b i j s) =
                 take MAX_MATCHES_PER_PAIR (firstOccurrences (ps @ [p])) \<and>
               set (segmentsA (matchStep a b i j s)) =
                 matchSegmentA (cs_tokens a) (cs_tokens b) `
                   {p \<in> set (seenPairs (matchStep a b i j s)).
                      extendable (cs_tokens a) (cs_tokens b) p} \<and>
               length (segmentsA (matchStep a b i j s)) = length (segmentsB (matchStep a b i j s))"
    proof (cases "(i, j) \<in> set (seenPairs s)")
      case True
      then have "p \<in> set ps" unfolding all set_firstOccurrences p .
      then have "firstOccurrences (ps @ [p]) = firstOccurrences ps"
        by (simp add: firstOccurrences_snoc)
      then show ?thesis using True seen segs len by (simp add: matchStep_effect)
    next
      case new: False
      then have "p \<notin> set ps" unfolding all set_firstOccurrences p .
      then have fo: "firstOccurrences (ps @ [p]) = firstOccurrences ps @ [(i, j)]"
        by (simp add: firstOccurrences_snoc p)
      have tk: "take MAX_MATCHES_PER_PAIR (firstOccurrences ps @ [(i, j)]) =
                firstOccurrences ps @ [(i, j)]"
        using short by simp
      show ?thesis
      proof (cases "extendable (cs_tokens a) (cs_tokens b) (i, j)")
        case True
        have "{p \<in> set (firstOccurrences ps @ [(i, j)]). extendable (cs_tokens a) (cs_tokens b) p} =
              insert (i, j) {p \<in> set (firstOccurrences ps). extendable (cs_tokens a) (cs_tokens b) p}"
          using True by auto
        then show ?thesis
          using True new False segs len
          by (simp add: matchStep_effect fo tk all)
      next
        case False
        have "{p \<in> set (firstOccurrences ps @ [(i, j)]). extendable (cs_tokens a) (cs_tokens b) p} =
              {p \<in> set (firstOccurrences ps). extendable (cs_tokens a) (cs_tokens b) p}"
          using False by auto
        then show ?thesis
          using False new \<open>\<not> MAX_MATCHES_PER_PAIR \<le> length (seenPairs s)\<close> segs len
          by (simp add: matchStep_effect fo tk all)
      qed
    qed
  qed
qed


subsection \<open>The overlap of a pair\<close>

lemma fold_mergeStep_nonempty: "ms \<noteq> [] \<Longrightarrow> fold mergeStep rs ms \<noteq> []"
proof (induction rs arbitrary: ms)
  case Nil
  then show ?case by simp
next
  case (Cons r rs)
  have "mergeStep r ms \<noteq> []" by (simp add: mergeStep_def Let_def)
  from Cons.IH[OF this] show ?case by simp
qed

lemma mergeSegments_nonempty: "segs \<noteq> [] \<Longrightarrow> mergeSegments segs \<noteq> []"
  by (simp add: mergeSegments_def Let_def fold_mergeStep_nonempty)

lemma hasSharedFingerprints_iff:
  "hasSharedFingerprints a b \<longleftrightarrow>
     filter (\<lambda>hash. hash \<in> set (cs_fingerprintHashes b)) (cs_fingerprintHashes a) \<noteq> []"
  by (auto simp: hasSharedFingerprints_def Let_def list_ex_iff filter_empty_conv)

lemma coveredA_segments:
  fixes a b
  defines "st \<equiv> fold (\<lambda>p. matchStep a b (fst p) (snd p)) (sharedPositions a b)
                   \<lparr>seenPairs = [], segmentsA = [], segmentsB = []\<rparr>"
  shows "cover (segmentsA st) = coveredA a b"
    and "\<forall>s \<in> set (segmentsA st). seg_start s \<le> seg_end s"
    and "segmentsA st = [] \<longleftrightarrow> segmentsB st = []"
proof -
  note f = fold_matchStep[of a b "sharedPositions a b", folded st_def]
  from f have seen: "seenPairs st = matchedPositions a b" by (simp add: matchedPositions_def)
  from f have segs: "set (segmentsA st) =
      matchSegmentA (cs_tokens a) (cs_tokens b) `
        {p \<in> set (matchedPositions a b). extendable (cs_tokens a) (cs_tokens b) p}"
    unfolding seen by simp
  show "cover (segmentsA st) = coveredA a b"
    unfolding cover_def coveredA_def segs by (simp add: image_image matchSegmentA_positions)
  show "\<forall>s \<in> set (segmentsA st). seg_start s \<le> seg_end s"
    unfolding segs using matchSegmentA_proper by blast
  from f have "length (segmentsA st) = length (segmentsB st)" by simp
  then show "segmentsA st = [] \<longleftrightarrow> segmentsB st = []" by (metis length_0_conv)
qed

lemma computeSymbolOverlap_similarity:
  "(case computeSymbolOverlap a b of Some ov \<Rightarrow> ov_similarity ov | None \<Rightarrow> 0) =
     overlapSimilarity a b"
proof -
  define st where "st = fold (\<lambda>p. matchStep a b (fst p) (snd p)) (sharedPositions a b)
                   \<lparr>seenPairs = [], segmentsA = [], segmentsB = []\<rparr>"
  note c = coveredA_segments[of a b, folded st_def]
  let ?shared = "filter (\<lambda>hash. hash \<in> set (cs_fingerprintHashes b)) (cs_fingerprintHashes a)"
  let ?d = "max (length (cs_tokens a)) (length (cs_tokens b))"
  have unf: "computeSymbolOverlap a b =
     (if ?shared = [] then None
      else if segmentsA st = [] \<or> segmentsB st = [] then None
      else if mergeSegments (segmentsA st) = [] \<or> mergeSegments (segmentsB st) = [] then None
      else if ?d = 0 then None
      else Some \<lparr>ov_similarity = toDouble (of_int (totalLength (mergeSegments (segmentsA st)))
                                             / of_nat ?d),
                 ov_segmentsA = mergeSegments (segmentsA st),
                 ov_segmentsB = mergeSegments (segmentsB st)\<rparr>)"
    unfolding st_def fold_sharedPositions computeSymbolOverlap_def Let_def totalLength_def
    by (rule refl)
  have tot: "totalLength (mergeSegments (segmentsA st)) = int (card (coveredA a b))"
    using mergeSegments_total(1)[OF c(2)] c(1) by simp
  have empty: "coveredA a b = {}" if "segmentsA st = []"
    using c(1) that by (simp add: cover_def)
  have zero: "overlapSimilarity a b = 0" if "coveredA a b = {}"
    using that by (simp add: overlapSimilarity_def toDouble_zero)
  show ?thesis
  proof (cases "?shared = []")
    case True
    then have "sharedPositions a b = []" by (simp add: sharedPositions_def)
    then have "segmentsA st = []" by (simp add: st_def)
    then show ?thesis using True zero[OF empty] by (simp add: unf)
  next
    case shared: False
    show ?thesis
    proof (cases "segmentsA st = [] \<or> segmentsB st = []")
      case True
      then have "segmentsA st = []" using c(3) by blast
      then show ?thesis using True zero[OF empty] by (simp add: unf)
    next
      case False
      then have ma: "mergeSegments (segmentsA st) \<noteq> []"
        using mergeSegments_nonempty by blast
      show ?thesis
      proof (cases "mergeSegments (segmentsB st) = [] \<or> ?d = 0")
        case True
        have "overlapSimilarity a b = 0"
        proof (cases "?d = 0")
          case True
          then show ?thesis by (simp add: overlapSimilarity_def toDouble_zero)
        next
          case d: False
          with True have mb: "mergeSegments (segmentsB st) = []" by blast
          have "segmentsB st \<noteq> []" using False by blast
          then have "mergeSegments (segmentsB st) \<noteq> []" by (rule mergeSegments_nonempty)
          with mb show ?thesis by blast
        qed
        then show ?thesis using True shared False by (auto simp: unf)
      next
        case ok: False
        then have mb: "mergeSegments (segmentsB st) \<noteq> []" and d: "?d \<noteq> 0" by blast+
        have "computeSymbolOverlap a b =
                Some \<lparr>ov_similarity = toDouble (of_int (totalLength (mergeSegments (segmentsA st)))
                                                   / of_nat ?d),
                       ov_segmentsA = mergeSegments (segmentsA st),
                       ov_segmentsB = mergeSegments (segmentsB st)\<rparr>"
          unfolding unf using shared False ma mb d by (simp only: if_False HOL.simp_thms)
        then show ?thesis by (simp add: tot overlapSimilarity_def)
      qed
    qed
  qed
qed

subsection \<open>Similarity of a pair\<close>

lemma map_of_mapSet: "map_of (mapSet ps k v) = (map_of ps)(k \<mapsto> v)"
  by (induction ps k v rule: mapSet.induct) auto

lemma keys_mapSet:
  "map fst (mapSet ps k v) = (if k \<in> fst ` set ps then map fst ps else map fst ps @ [k])"
  by (induction ps k v rule: mapSet.induct) (auto simp: image_iff)

lemma buildTokenCounts_snoc:
  "buildTokenCounts (toks @ [t]) =
     mapSet (buildTokenCounts toks) t
       ((case map_of (buildTokenCounts toks) t of None \<Rightarrow> 0 | Some n \<Rightarrow> n) + 1)"
  by (simp add: buildTokenCounts_def)

lemma buildTokenCounts_props:
  "distinct (map fst (buildTokenCounts toks)) \<and>
   fst ` set (buildTokenCounts toks) = set toks \<and>
   (\<forall>t. map_of (buildTokenCounts toks) t =
          (if t \<in> set toks then Some (count (mset toks) t) else None))"
proof (induction toks rule: rev_induct)
  case Nil
  then show ?case by (simp add: buildTokenCounts_def)
next
  case (snoc t toks)
  let ?c = "buildTokenCounts toks"
  let ?n = "(case map_of ?c t of None \<Rightarrow> 0 | Some n \<Rightarrow> n) + 1"
  from snoc have d: "distinct (map fst ?c)" and k: "fst ` set ?c = set toks"
    and m: "\<And>u. map_of ?c u = (if u \<in> set toks then Some (count (mset toks) u) else None)"
    by simp_all
  have n: "?n = count (mset (toks @ [t])) t"
    by (simp add: m not_in_iff)
  have 1: "distinct (map fst (mapSet ?c t ?n))"
    unfolding keys_mapSet using d k by auto
  have 2: "fst ` set (mapSet ?c t ?n) = set (toks @ [t])"
  proof -
    have "fst ` set (mapSet ?c t ?n) = set (map fst (mapSet ?c t ?n))" by simp
    also have "\<dots> = set (toks @ [t])" unfolding keys_mapSet using k by auto
    finally show ?thesis .
  qed
  have 3: "map_of (mapSet ?c t ?n) u =
           (if u \<in> set (toks @ [t]) then Some (count (mset (toks @ [t])) u) else None)" for u
  proof (cases "u = t")
    case True
    then show ?thesis unfolding map_of_mapSet using n by simp
  next
    case False
    then show ?thesis unfolding map_of_mapSet by (simp add: m)
  qed
  show ?case unfolding buildTokenCounts_snoc using 1 2 3 by blast
qed

lemma fold_intersection:
  "fold (\<lambda>(token, count) acc.
           case map_of countsB token of Some countB \<Rightarrow> acc + min count countB | None \<Rightarrow> acc)
        countsA (n::nat) =
   n + sum_list (map (\<lambda>(token, count).
                        case map_of countsB token of Some countB \<Rightarrow> min count countB
                        | None \<Rightarrow> 0) countsA)"
  by (induction countsA arbitrary: n) (auto split: option.splits)

lemma intersection_sum:
  "sum_list (map (\<lambda>(token, c).
                    case map_of (buildTokenCounts B) token of Some countB \<Rightarrow> min c countB
                    | None \<Rightarrow> 0) (buildTokenCounts A)) =
   (\<Sum>t \<in> set A \<union> set B. min (count (mset A) t) (count (mset B) t))"
proof -
  let ?cA = "buildTokenCounts A"
  let ?g = "\<lambda>(token, c). case map_of (buildTokenCounts B) token of
                            Some countB \<Rightarrow> min c countB | None \<Rightarrow> (0::nat)"
  let ?h = "\<lambda>t. min (count (mset A) t) (count (mset B) t)"
  note pA = buildTokenCounts_props[of A] and pB = buildTokenCounts_props[of B]
  have val: "?g p = ?h (fst p)" if "p \<in> set ?cA" for p
  proof -
    obtain t c where p: "p = (t, c)" by (cases p)
    have dk: "distinct (map fst ?cA)" using pA by blast
    have "(t, c) \<in> set ?cA" using that p by simp
    then have "map_of ?cA t = Some c" by (rule map_of_is_SomeI[OF dk])
    then have c: "c = count (mset A) t" using pA by (auto split: if_splits)
    have z: "t \<notin> set B \<Longrightarrow> count (mset B) t = 0" by (simp add: count_eq_zero_iff)
    have mB: "map_of (buildTokenCounts B) t = (if t \<in> set B then Some (count (mset B) t) else None)"
      using pB by blast
    show ?thesis
    proof (cases "t \<in> set B")
      case True
      then show ?thesis unfolding p using c by (simp add: mB)
    next
      case False
      then have "count (mset B) t = 0" by (rule z)
      then have "min (count (mset A) t) (count (mset B) t) = 0" by (simp only: min_0R)
      then show ?thesis unfolding p using False by (simp add: mB)
    qed
  qed
  have "sum_list (map ?g ?cA) = sum_list (map (\<lambda>p. ?h (fst p)) ?cA)"
    by (rule arg_cong[of _ _ sum_list], rule map_cong[OF refl]) (use val in blast)
  also have "\<dots> = sum_list (map ?h (map fst ?cA))" by (simp add: comp_def)
  also have "\<dots> = (\<Sum>t \<in> set (map fst ?cA). ?h t)"
    by (rule sum_list_distinct_conv_sum_set) (use pA in blast)
  also have "set (map fst ?cA) = set A" using pA by simp
  also have "(\<Sum>t \<in> set A. ?h t) = (\<Sum>t \<in> set A \<union> set B. ?h t)"
  proof (rule sum.mono_neutral_left)
    show "finite (set A \<union> set B)" by simp
    show "set A \<subseteq> set A \<union> set B" by simp
    show "\<forall>i \<in> set A \<union> set B - set A. ?h i = 0"
    proof
      fix i assume "i \<in> set A \<union> set B - set A"
      then have "i \<notin> set A" by simp
      then have "count (mset A) i = 0" by (simp add: count_eq_zero_iff)
      then show "?h i = 0" by (simp only: min_0L)
    qed
  qed
  finally show ?thesis .
qed

lemma dice_refines:
  "diceCoefficient (buildTokenCounts A) (length A) (buildTokenCounts B) (length B) = diceSpec A B"
proof (cases "A = [] \<or> B = []")
  case True
  then have "(\<Sum>t \<in> set A \<union> set B. min (count (mset A) t) (count (mset B) t)) = 0"
    by auto
  then show ?thesis using True by (auto simp: diceCoefficient_def diceSpec_def toDouble_zero)
next
  case False
  then show ?thesis
    by (simp add: diceCoefficient_def diceSpec_def Let_def fold_intersection intersection_sum)
qed

lemma diceSpec_nonneg: "0 \<le> diceSpec A B"
  unfolding diceSpec_def
  by (rule toDouble_nonneg, rule divide_nonneg_nonneg) (simp_all only: of_nat_0_le_iff)

lemma pairOverlap_similarity:
  "(case pairOverlap a b of Some ov \<Rightarrow> ov_similarity ov | None \<Rightarrow> 0) = overlapSimilarity a b"
proof (cases "hasSharedFingerprints a b")
  case True
  then show ?thesis by (simp add: pairOverlap_def computeSymbolOverlap_similarity)
next
  case False
  then have "sharedPositions a b = []"
    by (simp add: hasSharedFingerprints_iff sharedPositions_def)
  then have "coveredA a b = {}"
    by (simp add: coveredA_def matchedPositions_def firstOccurrences_def)
  then show ?thesis using False
    by (simp add: pairOverlap_def overlapSimilarity_def toDouble_zero)
qed

lemma pairSimilarity_max:
  assumes "cs_tokenCounts a = buildTokenCounts (cs_tokens a)" "cs_tokenTotal a = length (cs_tokens a)"
    and "cs_tokenCounts b = buildTokenCounts (cs_tokens b)" "cs_tokenTotal b = length (cs_tokens b)"
  shows "pairSimilarity a b = max (overlapSimilarity a b) (diceSpec (cs_tokens a) (cs_tokens b))"
proof (cases "pairOverlap a b")
  case None
  then have "overlapSimilarity a b = 0" using pairOverlap_similarity[of a b] by simp
  then show ?thesis using None assms diceSpec_nonneg[of "cs_tokens a" "cs_tokens b"]
    by (simp add: pairSimilarity_def dice_refines max_def)
next
  case (Some ov)
  then have "ov_similarity ov = overlapSimilarity a b" using pairOverlap_similarity[of a b] by simp
  then show ?thesis using assms Some
    by (simp add: pairSimilarity_def dice_refines)
qed

subsection \<open>Two five-token symbols, evaluated\<close>

lemma ex_tokenize: "tokenizeWithMeta ''a b c d e'' = \<lparr>tm_tokens = [''a'', ''b'', ''c'', ''d'', ''e''], tm_offsets = [0, 2, 4, 6, 8], tm_lengths = [1, 1, 1, 1, 1]\<rparr>"
  by (simp add: tokenizeWithMeta_def stripCommentsPreserveLayout_def wordChar_def toLowerCase_def lowerChar_def Let_def)

lemma ex_kgramHashes: "kgramHashes [''a'', ''b'', ''c'', ''d'', ''e''] 3 = [fp 313733 0, fp 254823 1, fp 195913 2]"
  by (simp add: kgramHashes_def hashShingle_def fp_def upt_rec)

lemma ex_computeFingerprints: "computeFingerprints [''a'', ''b'', ''c'', ''d'', ''e''] SHINGLE_SIZE WINDOW_SIZE =
   \<lparr>fd_fingerprints = [fp 195913 2], fd_fingerprintIndex = [(195913, [2])], fd_fingerprintHashes = [195913]\<rparr>"
  by (simp add: computeFingerprints_def SHINGLE_SIZE_def WINDOW_SIZE_def ex_kgramHashes winnow_def reduceMin_def beats_def fp_def indexFingerprint_def Let_def)

lemma ex_buildTokenCounts: "buildTokenCounts [''a'', ''b'', ''c'', ''d'', ''e''] = [(''a'', 1), (''b'', 1), (''c'', 1), (''d'', 1), (''e'', 1)]"
  by (simp add: buildTokenCounts_def)

lemma ex_enrichSymbol: "enrichSymbol r (exSym i p ''a b c d e'') = (if i = [] then None else Some (exCand i p))"
  by (simp add: enrichSymbol_def exSym_def exCand_def ex_tokenize ex_computeFingerprints ex_buildTokenCounts MIN_TOKENS_def buildLineOffsets_def newline_def fp_def Let_def)

lemma ex_hasSharedFingerprints: "hasSharedFingerprints (exCand i p) (exCand j q)"
  by (simp add: hasSharedFingerprints_def exCand_def)

lemma ex_extendMatch: "extendMatch [''a'', ''b'', ''c'', ''d'', ''e''] [''a'', ''b'', ''c'', ''d'', ''e''] 2 2 3 =
    Some \<lparr>startA = 0, endA = 4, startB = 0, endB = 4\<rparr>"
proof -
  have two: "(2::nat) = Suc (Suc 0)" by simp
  have l: "extendLeft [''a'', ''b'', ''c'', ''d'', ''e''] [''a'', ''b'', ''c'', ''d'', ''e''] 2 2 = (0, 0)"
    unfolding two by (simp add: elemAt_def)
  have r: "extendRight [''a'', ''b'', ''c'', ''d'', ''e''] [''a'', ''b'', ''c'', ''d'', ''e''] 4 4 = (4, 4)"
    by (simp add: extendRight.simps)
  show ?thesis by (simp add: extendMatch_def l r)
qed

lemma ex_computeSymbolOverlap: "computeSymbolOverlap (exCand i p) (exCand j q) =
   Some \<lparr>ov_similarity = 1, ov_segmentsA = [\<lparr>seg_start = 0, seg_end = 4\<rparr>],
      ov_segmentsB = [\<lparr>seg_start = 0, seg_end = 4\<rparr>]\<rparr>"
  by (simp add: computeSymbolOverlap_def exCand_def positionsOf_def matchStep_def
       MAX_MATCHES_PER_PAIR_def SHINGLE_SIZE_def ex_extendMatch mergeSegments_def Let_def
       toDouble_one)

lemma ex_diceCoefficient: "diceCoefficient (cs_tokenCounts (exCand i p)) (cs_tokenTotal (exCand i p))
      (cs_tokenCounts (exCand j q)) (cs_tokenTotal (exCand j q)) = 1"
  by (simp add: diceCoefficient_def exCand_def toDouble_one)

lemma ex_pairSimilarity: "pairSimilarity (exCand i p) (exCand j q) = 1"
  by (simp add: pairSimilarity_def pairOverlap_def ex_hasSharedFingerprints ex_computeSymbolOverlap ex_diceCoefficient)

subsection \<open>A five-token symbol inside a longer one, evaluated\<close>

lemma ex_tokenize_long:
  "tokenizeWithMeta ''z y a b c d e z'' =
     \<lparr>tm_tokens = [''z'', ''y'', ''a'', ''b'', ''c'', ''d'', ''e'', ''z''],
      tm_offsets = [0, 2, 4, 6, 8, 10, 12, 14], tm_lengths = [1, 1, 1, 1, 1, 1, 1, 1]\<rparr>"
  by (simp add: tokenizeWithMeta_def stripCommentsPreserveLayout_def wordChar_def toLowerCase_def
        lowerChar_def Let_def)

lemma ex_kgramHashes_long:
  "kgramHashes [''z'', ''y'', ''a'', ''b'', ''c'', ''d'', ''e'', ''z''] 3 =
     [fp 773473 0, fp 596888 1, fp 313733 2, fp 254823 3, fp 195913 4, fp 139623 5]"
  by (simp add: kgramHashes_def hashShingle_def fp_def upt_rec)

lemma ex_winnow_long:
  "winnow [fp 773473 0, fp 596888 1, fp 313733 2, fp 254823 3, fp 195913 4, fp 139623 5] 4 =
     [fp 254823 3, fp 195913 4, fp 139623 5]"
  by (simp add: winnow_def winnowLoop.simps rescan_def beats_def fp_def pushFingerprint_def
        upt_rec Let_def)

lemma ex_computeFingerprints_long:
  "computeFingerprints [''z'', ''y'', ''a'', ''b'', ''c'', ''d'', ''e'', ''z''] SHINGLE_SIZE WINDOW_SIZE =
   \<lparr>fd_fingerprints = [fp 254823 3, fp 195913 4, fp 139623 5],
    fd_fingerprintIndex = [(254823, [3]), (195913, [4]), (139623, [5])],
    fd_fingerprintHashes = [254823, 195913, 139623]\<rparr>"
proof -
  have "length [''z'', ''y'', ''a'', ''b'', ''c'', ''d'', ''e'', ''z''] < SHINGLE_SIZE \<longleftrightarrow> False"
    by (simp add: SHINGLE_SIZE_def)
  then show ?thesis
    unfolding computeFingerprints_def Let_def
    unfolding SHINGLE_SIZE_def WINDOW_SIZE_def ex_kgramHashes_long ex_winnow_long
    by (simp add: fp_def indexFingerprint_def)
qed

lemma ex_buildTokenCounts_long:
  "buildTokenCounts [''z'', ''y'', ''a'', ''b'', ''c'', ''d'', ''e'', ''z''] =
     [(''z'', 2), (''y'', 1), (''a'', 1), (''b'', 1), (''c'', 1), (''d'', 1), (''e'', 1)]"
  by (simp add: buildTokenCounts_def)

lemma ex_enrichSymbol_long:
  "enrichSymbol r (exSym i p ''z y a b c d e z'') = (if i = [] then None else Some (exCandLong i p))"
  by (simp add: enrichSymbol_def exSym_def exCandLong_def ex_tokenize_long
        ex_computeFingerprints_long ex_buildTokenCounts_long MIN_TOKENS_def buildLineOffsets_def
        newline_def fp_def Let_def)

lemma ex_extendMatch_long:
  "extendMatch [''a'', ''b'', ''c'', ''d'', ''e'']
               [''z'', ''y'', ''a'', ''b'', ''c'', ''d'', ''e'', ''z''] 2 4 SHINGLE_SIZE =
     Some \<lparr>startA = 0, endA = 4, startB = 2, endB = 6\<rparr>"
  unfolding extendMatch_common
  by (simp add: extendable_def SHINGLE_SIZE_def commonPrefix_def)

lemma ex_pairOverlap_long:
  "pairOverlap (exCand i p) (exCandLong j q) =
     Some \<lparr>ov_similarity = 5 / 8, ov_segmentsA = [\<lparr>seg_start = 0, seg_end = 4\<rparr>],
           ov_segmentsB = [\<lparr>seg_start = 2, seg_end = 6\<rparr>]\<rparr>"
proof -
  have h: "hasSharedFingerprints (exCand i p) (exCandLong j q)"
    by (simp add: hasSharedFingerprints_def exCand_def exCandLong_def)
  have t: "toDouble (5 / 8) = 5 / 8" by (simp add: toDouble_eval)
  have "computeSymbolOverlap (exCand i p) (exCandLong j q) =
     Some \<lparr>ov_similarity = 5 / 8, ov_segmentsA = [\<lparr>seg_start = 0, seg_end = 4\<rparr>],
           ov_segmentsB = [\<lparr>seg_start = 2, seg_end = 6\<rparr>]\<rparr>"
    using ex_extendMatch_long
    by (simp add: computeSymbolOverlap_def exCand_def exCandLong_def positionsOf_def matchStep_def
          MAX_MATCHES_PER_PAIR_def mergeSegments_def Let_def t mergeStep_def)
  then show ?thesis using h by (simp add: pairOverlap_def)
qed

lemma ex_dice_long:
  "diceCoefficient (cs_tokenCounts (exCand i p)) (cs_tokenTotal (exCand i p))
      (cs_tokenCounts (exCandLong j q)) (cs_tokenTotal (exCandLong j q)) = toDouble (10 / 13)"
  by (simp add: diceCoefficient_def exCand_def exCandLong_def)

lemma ex_toDouble_dice: "toDouble (10 / 13) = 6928614811339225 / 9007199254740992"
  by (simp add: toDouble_eval)

lemma ex_pairSimilarity_long:
  "pairSimilarity (exCand i p) (exCandLong j q) = toDouble (10 / 13)"
  by (simp add: pairSimilarity_def ex_pairOverlap_long ex_dice_long ex_toDouble_dice)

lemma ex_threshold: "DEFAULT_THRESHOLD = 4953959590107546 / 9007199254740992"
  by (simp add: DEFAULT_THRESHOLD_def toDouble_eval)

lemma ex_toFixed2_long: "toFixed2 (toDouble (10 / 13)) = toDouble (77 / 100)"
  by (simp add: ex_toDouble_dice toFixed2_def floor_rat_numeral)

subsection \<open>Claims about the clones map\<close>

lemma pairsOf_total:
  "a \<in> set xs \<Longrightarrow> b \<in> set xs \<Longrightarrow> a \<noteq> b \<Longrightarrow>
   (a, b) \<in> set (pairsOf xs) \<or> (b, a) \<in> set (pairsOf xs)"
  by (induction xs) auto

lemma candidate_origin:
  assumes d: "distinct (map sym_id (filter isFunctionLike symbolEntries))"
    and e: "e \<in> set symbolEntries" "isFunctionLike e"
    and c: "c \<in> set (cloneCandidates rootPath symbolEntries)" "cs_id c = sym_id e"
  shows "enrichSymbol rootPath e = Some c"
proof -
  from c(1) obtain e' where e': "e' \<in> set symbolEntries" "isFunctionLike e'"
    "enrichSymbol rootPath e' = Some c" unfolding cloneCandidates_mem by blast
  have inj: "inj_on sym_id (set (filter isFunctionLike symbolEntries))"
    using d by (simp add: distinct_map)
  have "sym_id e' = sym_id e" using enrichSymbol_Some(1)[OF e'(3)] c(2) by simp
  then have "e' = e" using inj e e'(1,2) by (auto dest: inj_onD)
  then show ?thesis using e'(3) by simp
qed

lemma compared_pair_entries:
  assumes d: "distinct (map sym_id (filter isFunctionLike symbolEntries))"
    and p: "(a, b) \<in> set (comparedPairs (cloneCandidates rootPath symbolEntries))"
  shows "(\<exists>e \<in> set (entriesOf (findSymbolClones rootPath symbolEntries threshold) (cs_id a)).
            ce_targetId e = cs_id b) \<longleftrightarrow> pairSimilarity a b \<ge> threshold"
    and "(\<exists>e \<in> set (entriesOf (findSymbolClones rootPath symbolEntries threshold) (cs_id b)).
            ce_targetId e = cs_id a) \<longleftrightarrow> pairSimilarity a b \<ge> threshold"
    and "\<forall>e \<in> set (entriesOf (findSymbolClones rootPath symbolEntries threshold) (cs_id a)).
            ce_targetId e = cs_id b \<longrightarrow> ce_similarity e = toFixed2 (pairSimilarity a b)"
    and "\<forall>e \<in> set (entriesOf (findSymbolClones rootPath symbolEntries threshold) (cs_id b)).
            ce_targetId e = cs_id a \<longrightarrow> ce_similarity e = toFixed2 (pairSimilarity a b)"
proof -
  let ?cands = "cloneCandidates rootPath symbolEntries"
  let ?L = "comparedPairs ?cands"
  let ?E = "\<lambda>x. set (entriesOf (findSymbolClones rootPath symbolEntries threshold) x)"
  have dc: "distinct (map cs_id ?cands)" by (rule cloneCandidates_distinct[OF d])
  have pp: "(a, b) \<in> set (pairsOf ?cands)" using p by (rule comparedPairs_subset)
  have src: "pairSimilarity a b \<ge> threshold \<and> ce_similarity e = toFixed2 (pairSimilarity a b)"
    if e: "e \<in> ?E x" "ce_targetId e = y"
      and xy: "x = cs_id a \<and> y = cs_id b \<or> x = cs_id b \<and> y = cs_id a"
    for e x y
  proof -
    from e(1) obtain q where q: "q \<in> set ?L" "e \<in> set (contribution threshold x q)"
      unfolding findSymbolClones_mem by blast
    obtain a' b' where q': "q = (a', b')" by (cases q)
    note c = contribution_cases[OF q(2)[unfolded q']]
    have pq: "(a', b') \<in> set (pairsOf ?cands)" using q(1) q' comparedPairs_subset by blast
    have "cs_id a' = cs_id a \<and> cs_id b' = cs_id b"
    proof (rule ccontr)
      assume n: "\<not> (cs_id a' = cs_id a \<and> cs_id b' = cs_id b)"
      from c e(2) xy n have "cs_id a = cs_id b' \<and> cs_id b = cs_id a'" by auto
      then show False using pairsOf_not_swapped[OF dc pp pq] by blast
    qed
    then have "a' = a \<and> b' = b" using pairsOf_same[OF dc pq pp] by blast
    then show ?thesis using c by simp
  qed
  have fw: "\<exists>e \<in> ?E (cs_id a). ce_targetId e = cs_id b" if "pairSimilarity a b \<ge> threshold"
    using contribution_forward[OF that] findSymbolClones_memI[OF p] by blast
  have bw: "\<exists>e \<in> ?E (cs_id b). ce_targetId e = cs_id a" if "pairSimilarity a b \<ge> threshold"
    using contribution_backward[OF that] findSymbolClones_memI[OF p] by blast
  show "(\<exists>e \<in> ?E (cs_id a). ce_targetId e = cs_id b) \<longleftrightarrow> pairSimilarity a b \<ge> threshold"
    using fw src[of _ "cs_id a" "cs_id b"] by blast
  show "(\<exists>e \<in> ?E (cs_id b). ce_targetId e = cs_id a) \<longleftrightarrow> pairSimilarity a b \<ge> threshold"
    using bw src[of _ "cs_id b" "cs_id a"] by blast
  show "\<forall>e \<in> ?E (cs_id a). ce_targetId e = cs_id b \<longrightarrow>
             ce_similarity e = toFixed2 (pairSimilarity a b)"
    using src[of _ "cs_id a" "cs_id b"] by blast
  show "\<forall>e \<in> ?E (cs_id b). ce_targetId e = cs_id a \<longrightarrow>
             ce_similarity e = toFixed2 (pairSimilarity a b)"
    using src[of _ "cs_id b" "cs_id a"] by blast
qed

lemma languagesAreCompatible_sym:
  "languagesAreCompatible x y \<longleftrightarrow> languagesAreCompatible y x"
  by (auto simp: languagesAreCompatible_def split: option.splits)

lemma comparedPairs_all:
  "length (compatiblePairs symbols) \<le> MAX_PAIRS \<Longrightarrow> comparedPairs symbols = compatiblePairs symbols"
  by (simp add: comparedPairs_def compatiblePairs_def)

text \<open>
  Claim C2.  Let the ids of the function-like entries be pairwise different and let
  \<open>(a, b)\<close> be a compared pair of prepared symbols.  Numbers are JavaScript numbers.  The
  similarity the loop computes is the maximum of the overlap similarity (the number of
  tokens of \<open>a\<close> covered by the extended matches, which is what the merged segments hold,
  over the larger token count) and the Dice coefficient of the two token multisets.  The
  clones map, computed with the default threshold, holds an entry from \<open>a\<close> to \<open>b\<close>, and
  one from \<open>b\<close> to \<open>a\<close>, exactly when that similarity is at least 0.55; and every such
  entry stores the similarity rounded to two decimals.
\<close>

theorem compared_pair_similarity:
  assumes d: "distinct (map sym_id (filter isFunctionLike symbolEntries))"
    and p: "(a, b) \<in> set (comparedPairs (cloneCandidates rootPath symbolEntries))"
  shows "pairSimilarity a b = max (overlapSimilarity a b) (diceSpec (cs_tokens a) (cs_tokens b)) \<and>
         ((\<exists>e \<in> set (entriesOf (findSymbolClones rootPath symbolEntries DEFAULT_THRESHOLD) (cs_id a)).
             ce_targetId e = cs_id b) \<longleftrightarrow> pairSimilarity a b \<ge> toDouble (55 / 100)) \<and>
         ((\<exists>e \<in> set (entriesOf (findSymbolClones rootPath symbolEntries DEFAULT_THRESHOLD) (cs_id b)).
             ce_targetId e = cs_id a) \<longleftrightarrow> pairSimilarity a b \<ge> toDouble (55 / 100)) \<and>
         (\<forall>e \<in> set (entriesOf (findSymbolClones rootPath symbolEntries DEFAULT_THRESHOLD) (cs_id a)).
            ce_targetId e = cs_id b \<longrightarrow>
              ce_similarity e = toFixed2 (pairSimilarity a b) \<and>
              roundedToHundredths (pairSimilarity a b) (ce_similarity e)) \<and>
         (\<forall>e \<in> set (entriesOf (findSymbolClones rootPath symbolEntries DEFAULT_THRESHOLD) (cs_id b)).
            ce_targetId e = cs_id a \<longrightarrow>
              ce_similarity e = toFixed2 (pairSimilarity a b) \<and>
              roundedToHundredths (pairSimilarity a b) (ce_similarity e))"
proof -
  let ?cands = "cloneCandidates rootPath symbolEntries"
  let ?E = "\<lambda>x. set (entriesOf (findSymbolClones rootPath symbolEntries DEFAULT_THRESHOLD) x)"
  have th: "DEFAULT_THRESHOLD = toDouble (55 / 100)" by (simp add: DEFAULT_THRESHOLD_def)
  have pp: "(a, b) \<in> set (pairsOf ?cands)" using p by (rule comparedPairs_subset)
  then have mem: "a \<in> set ?cands" "b \<in> set ?cands" using pairsOf_mem by fast+
  from mem(1) obtain ea where ea: "enrichSymbol rootPath ea = Some a"
    unfolding cloneCandidates_mem by blast
  from mem(2) obtain eb where eb: "enrichSymbol rootPath eb = Some b"
    unfolding cloneCandidates_mem by blast
  have 1: "pairSimilarity a b = max (overlapSimilarity a b) (diceSpec (cs_tokens a) (cs_tokens b))"
    by (rule pairSimilarity_max)
       (rule enrichSymbol_Some(4)[OF ea] enrichSymbol_Some(5)[OF ea]
             enrichSymbol_Some(4)[OF eb] enrichSymbol_Some(5)[OF eb])+
  note c = compared_pair_entries[OF d p, of DEFAULT_THRESHOLD]
  have 2: "(\<exists>e \<in> ?E (cs_id a). ce_targetId e = cs_id b) \<longleftrightarrow> pairSimilarity a b \<ge> toDouble (55 / 100)"
    using c(1) unfolding th .
  have 3: "(\<exists>e \<in> ?E (cs_id b). ce_targetId e = cs_id a) \<longleftrightarrow> pairSimilarity a b \<ge> toDouble (55 / 100)"
    using c(2) unfolding th .
  have 4: "\<forall>e \<in> ?E (cs_id a). ce_targetId e = cs_id b \<longrightarrow>
             ce_similarity e = toFixed2 (pairSimilarity a b) \<and>
             roundedToHundredths (pairSimilarity a b) (ce_similarity e)"
    using c(3) toFixed2_rounded[of "pairSimilarity a b"] by auto
  have 5: "\<forall>e \<in> ?E (cs_id b). ce_targetId e = cs_id a \<longrightarrow>
             ce_similarity e = toFixed2 (pairSimilarity a b) \<and>
             roundedToHundredths (pairSimilarity a b) (ce_similarity e)"
    using c(4) toFixed2_rounded[of "pairSimilarity a b"] by auto
  show ?thesis using 1 2 3 4 5 by blast
qed

text \<open>
  Claim C6.  Let the ids of the function-like entries be pairwise different and let \<open>e\<close>
  be a function-like entry.  If its text yields exactly 5 tokens (and its id is not
  empty), it is prepared and takes part in the comparison: for every other prepared
  symbol of a compatible language (the pairs of compatible languages being within the
  budget of \<^verbatim>\<open>MAX_PAIRS\<close>) the clones map holds an entry from \<open>e\<close> to that symbol, and one
  from that symbol to \<open>e\<close>, exactly when the similarity of the two reaches the threshold.
  If its text yields 4 tokens or fewer, its id is not a key of the clones map and no
  entry of the map targets it.
\<close>

theorem min_tokens_boundary:
  assumes d: "distinct (map sym_id (filter isFunctionLike symbolEntries))"
    and e: "e \<in> set symbolEntries" "isFunctionLike e"
  shows "(length (tm_tokens (tokenizeWithMeta (sym_text e))) = 5 \<and> sym_id e \<noteq> [] \<longrightarrow>
           (\<exists>c \<in> set (cloneCandidates rootPath symbolEntries).
              cs_id c = sym_id e \<and> cs_tokens c = tm_tokens (tokenizeWithMeta (sym_text e)) \<and>
              (\<forall>c' \<in> set (cloneCandidates rootPath symbolEntries).
                 c' \<noteq> c \<and> languagesAreCompatible (cs_language c) (cs_language c') \<and>
                 length (compatiblePairs (cloneCandidates rootPath symbolEntries)) \<le> MAX_PAIRS \<longrightarrow>
                 ((\<exists>en \<in> set (entriesOf (findSymbolClones rootPath symbolEntries threshold)
                                 (sym_id e)).
                     ce_targetId en = cs_id c') \<longleftrightarrow>
                  similarityOf (cloneCandidates rootPath symbolEntries) c c' \<ge> threshold) \<and>
                 ((\<exists>en \<in> set (entriesOf (findSymbolClones rootPath symbolEntries threshold)
                                 (cs_id c')).
                     ce_targetId en = sym_id e) \<longleftrightarrow>
                  similarityOf (cloneCandidates rootPath symbolEntries) c c' \<ge> threshold)))) \<and>
         (length (tm_tokens (tokenizeWithMeta (sym_text e))) \<le> 4 \<longrightarrow>
           findSymbolClones rootPath symbolEntries threshold (sym_id e) = None \<and>
           (\<forall>x. \<forall>c \<in> set (entriesOf (findSymbolClones rootPath symbolEntries threshold) x).
              ce_targetId c \<noteq> sym_id e))"
proof (intro conjI impI)
  let ?cands = "cloneCandidates rootPath symbolEntries"
  let ?E = "\<lambda>x. set (entriesOf (findSymbolClones rootPath symbolEntries threshold) x)"
  assume five: "length (tm_tokens (tokenizeWithMeta (sym_text e))) = 5 \<and> sym_id e \<noteq> []"
  then have "sym_text e \<noteq> []" by (auto simp: tokenizeWithMeta_def)
  then obtain c where c: "enrichSymbol rootPath e = Some c"
    using five by (simp add: enrichSymbol_def MIN_TOKENS_def Let_def)
  have cm: "c \<in> set ?cands" unfolding cloneCandidates_mem using e c by blast
  have ci: "cs_id c = sym_id e" by (rule enrichSymbol_Some(1)[OF c])
  have dc: "distinct (map cs_id ?cands)" by (rule cloneCandidates_distinct[OF d])
  have main: "((\<exists>en \<in> ?E (sym_id e). ce_targetId en = cs_id c') \<longleftrightarrow>
                 similarityOf ?cands c c' \<ge> threshold) \<and>
              ((\<exists>en \<in> ?E (cs_id c'). ce_targetId en = sym_id e) \<longleftrightarrow>
                 similarityOf ?cands c c' \<ge> threshold)"
    if c': "c' \<in> set ?cands" "c' \<noteq> c"
      and comp: "languagesAreCompatible (cs_language c) (cs_language c')"
      and budget: "length (compatiblePairs ?cands) \<le> MAX_PAIRS"
    for c'
  proof (cases "(c, c') \<in> set (pairsOf ?cands)")
    case True
    then have "(c, c') \<in> set (compatiblePairs ?cands)"
      using comp by (simp add: compatiblePairs_def)
    then have p: "(c, c') \<in> set (comparedPairs ?cands)"
      unfolding comparedPairs_all[OF budget] .
    have s: "similarityOf ?cands c c' = pairSimilarity c c'"
      using True by (simp add: similarityOf_def)
    from compared_pair_entries(1,2)[OF d p, of threshold] show ?thesis
      unfolding s ci by blast
  next
    case False
    with pairsOf_total[OF cm c'(1)] c'(2) have sw: "(c', c) \<in> set (pairsOf ?cands)" by blast
    have "languagesAreCompatible (cs_language c') (cs_language c)"
      using comp languagesAreCompatible_sym by blast
    then have "(c', c) \<in> set (compatiblePairs ?cands)"
      using sw by (simp add: compatiblePairs_def)
    then have p: "(c', c) \<in> set (comparedPairs ?cands)"
      unfolding comparedPairs_all[OF budget] .
    have s: "similarityOf ?cands c c' = pairSimilarity c' c"
      using False by (simp add: similarityOf_def)
    from compared_pair_entries(1,2)[OF d p, of threshold] show ?thesis
      unfolding s ci by blast
  qed
  show "\<exists>c \<in> set ?cands.
              cs_id c = sym_id e \<and> cs_tokens c = tm_tokens (tokenizeWithMeta (sym_text e)) \<and>
              (\<forall>c' \<in> set ?cands.
                 c' \<noteq> c \<and> languagesAreCompatible (cs_language c) (cs_language c') \<and>
                 length (compatiblePairs ?cands) \<le> MAX_PAIRS \<longrightarrow>
                 ((\<exists>en \<in> ?E (sym_id e). ce_targetId en = cs_id c') \<longleftrightarrow>
                  similarityOf ?cands c c' \<ge> threshold) \<and>
                 ((\<exists>en \<in> ?E (cs_id c'). ce_targetId en = sym_id e) \<longleftrightarrow>
                  similarityOf ?cands c c' \<ge> threshold))"
    using cm ci enrichSymbol_Some(3)[OF c] main by blast
next
  let ?cands = "cloneCandidates rootPath symbolEntries"
  let ?L = "comparedPairs ?cands"
  assume four: "length (tm_tokens (tokenizeWithMeta (sym_text e))) \<le> 4"
  then have none: "enrichSymbol rootPath e = None"
    by (simp add: enrichSymbol_def MIN_TOKENS_def Let_def)
  have nocand: "cs_id c \<noteq> sym_id e" if "c \<in> set ?cands" for c
    using candidate_origin[OF d e that] none by auto
  have inL: "cs_id a \<noteq> sym_id e \<and> cs_id b \<noteq> sym_id e" if "(a, b) \<in> set ?L" for a b
  proof -
    from that have "(a, b) \<in> set (pairsOf ?cands)" by (rule comparedPairs_subset)
    then have "a \<in> set ?cands" "b \<in> set ?cands" using pairsOf_mem by fast+
    then show ?thesis using nocand by blast
  qed
  show "findSymbolClones rootPath symbolEntries threshold (sym_id e) = None"
  proof (rule ccontr)
    assume "findSymbolClones rootPath symbolEntries threshold (sym_id e) \<noteq> None"
    then obtain es where "findSymbolClones rootPath symbolEntries threshold (sym_id e) = Some es"
      by blast
    from findSymbolClones_dom[OF this] show False using inL by blast
  qed
  show "\<forall>x. \<forall>c \<in> set (entriesOf (findSymbolClones rootPath symbolEntries threshold) x).
              ce_targetId c \<noteq> sym_id e"
  proof (intro allI ballI)
    fix x c assume "c \<in> set (entriesOf (findSymbolClones rootPath symbolEntries threshold) x)"
    then obtain q where q: "q \<in> set ?L" "c \<in> set (contribution threshold x q)"
      unfolding findSymbolClones_mem by blast
    obtain a b where q': "q = (a, b)" by (cases q)
    from contribution_cases[OF q(2)[unfolded q']] inL[of a b] q(1) q'
    show "ce_targetId c \<noteq> sym_id e" by auto
  qed
qed

subsection \<open>The claims at the example symbols\<close>

lemma ex_isFunctionLike: "isFunctionLike (exSym i p t)"
  by (simp add: isFunctionLike_def exSym_def toLowerCase_def lowerChar_def)

lemma ex_sym_id: "sym_id (exSym i p t) = i"
  by (simp add: exSym_def)

lemma ex_candidates:
  "cloneCandidates r [exSym ''function:a.js#f'' ''a.js'' ''a b c d e'',
                      exSym ''function:b.js#g'' ''b.js'' ''a b c d e''] =
     [exCand ''function:a.js#f'' ''a.js'', exCand ''function:b.js#g'' ''b.js'']"
  by (simp add: cloneCandidates_def ex_isFunctionLike ex_enrichSymbol List.map_filter_simps)

lemma ex_compatible: "languagesAreCompatible (cs_language (exCand i p)) (cs_language (exCand j q))"
  by (simp add: languagesAreCompatible_def normalizeLanguage_def exCand_def toLowerCase_def
        lowerChar_def JS_FAMILY_def)

lemma ex_comparedPairs:
  "comparedPairs [exCand i p, exCand j q] = [(exCand i p, exCand j q)]"
  by (simp add: comparedPairs_def ex_compatible MAX_PAIRS_def)

lemma ex_tokenize4: "tm_tokens (tokenizeWithMeta ''a b c d'') = [''a'', ''b'', ''c'', ''d'']"
  by (simp add: tokenizeWithMeta_def stripCommentsPreserveLayout_def wordChar_def toLowerCase_def lowerChar_def Let_def)

lemma ex_candidates_long:
  "cloneCandidates r [exSym ''function:a.js#f'' ''a.js'' ''a b c d e'',
                      exSym ''function:b.js#g'' ''b.js'' ''z y a b c d e z''] =
     [exCand ''function:a.js#f'' ''a.js'', exCandLong ''function:b.js#g'' ''b.js'']"
  by (simp add: cloneCandidates_def ex_isFunctionLike ex_enrichSymbol ex_enrichSymbol_long
        List.map_filter_simps)

lemma ex_compatible_long:
  "languagesAreCompatible (cs_language (exCand i p)) (cs_language (exCandLong j q))"
  by (simp add: languagesAreCompatible_def normalizeLanguage_def exCand_def exCandLong_def
        toLowerCase_def lowerChar_def JS_FAMILY_def)

lemma ex_comparedPairs_long:
  "comparedPairs [exCand i p, exCandLong j q] = [(exCand i p, exCandLong j q)]"
  by (simp add: comparedPairs_def ex_compatible_long MAX_PAIRS_def)

lemma ex_candidates_mixed:
  "cloneCandidates r [exSym ''function:a.js#f'' ''a.js'' ''a b c d e'',
                      exSym ''function:b.js#g'' ''b.js'' ''a b c d e'',
                      exSym ''function:c.js#h'' ''c.js'' ''a b c d''] =
     [exCand ''function:a.js#f'' ''a.js'', exCand ''function:b.js#g'' ''b.js'']"
proof -
  have "enrichSymbol r (exSym ''function:c.js#h'' ''c.js'' ''a b c d'') = None"
    by (simp add: enrichSymbol_def exSym_def ex_tokenize4 MIN_TOKENS_def Let_def)
  then show ?thesis
    by (simp add: cloneCandidates_def ex_isFunctionLike ex_enrichSymbol List.map_filter_simps)
qed

theorem clones_symmetric_witness:
  "distinct (map sym_id (filter isFunctionLike
      [exSym ''function:a.js#f'' ''a.js'' ''a b c d e'',
       exSym ''function:b.js#g'' ''b.js'' ''a b c d e''])) \<and>
   (\<exists>e \<in> set (entriesOf (findSymbolClones ''/repo''
                   [exSym ''function:a.js#f'' ''a.js'' ''a b c d e'',
                    exSym ''function:b.js#g'' ''b.js'' ''a b c d e''] DEFAULT_THRESHOLD)
                 ''function:b.js#g'').
      ce_targetId e = ''function:a.js#f'')"
proof -
  let ?es = "[exSym ''function:a.js#f'' ''a.js'' ''a b c d e'',
              exSym ''function:b.js#g'' ''b.js'' ''a b c d e'']"
  let ?a = "exCand ''function:a.js#f'' ''a.js''" and ?b = "exCand ''function:b.js#g'' ''b.js''"
  have d: "distinct (map sym_id (filter isFunctionLike ?es))"
    by (simp add: ex_isFunctionLike ex_sym_id)
  have p: "(?a, ?b) \<in> set (comparedPairs (cloneCandidates ''/repo'' ?es))"
    by (simp add: ex_candidates ex_comparedPairs)
  have s: "pairSimilarity ?a ?b \<ge> DEFAULT_THRESHOLD"
    by (simp add: ex_pairSimilarity ex_threshold)
  have ia: "cs_id ?a = ''function:a.js#f''" and ib: "cs_id ?b = ''function:b.js#g''"
    by (simp_all add: exCand_def)
  from contribution_forward[OF s] findSymbolClones_memI[OF p]
  have "\<exists>e \<in> set (entriesOf (findSymbolClones ''/repo'' ?es DEFAULT_THRESHOLD) ''function:a.js#f'').
          ce_targetId e = ''function:b.js#g''"
    unfolding ia ib by blast
  with clones_symmetric[OF d, of "''/repo''" DEFAULT_THRESHOLD "''function:a.js#f''" "''function:b.js#g''"]
  have "\<exists>e \<in> set (entriesOf (findSymbolClones ''/repo'' ?es DEFAULT_THRESHOLD) ''function:b.js#g'').
          ce_targetId e = ''function:a.js#f''"
    by blast
  with d show ?thesis by blast
qed

theorem compared_pair_similarity_witness:
  "distinct (map sym_id (filter isFunctionLike
      [exSym ''function:a.js#f'' ''a.js'' ''a b c d e'',
       exSym ''function:b.js#g'' ''b.js'' ''z y a b c d e z''])) \<and>
   (exCand ''function:a.js#f'' ''a.js'', exCandLong ''function:b.js#g'' ''b.js'')
     \<in> set (comparedPairs (cloneCandidates ''/repo''
                [exSym ''function:a.js#f'' ''a.js'' ''a b c d e'',
                 exSym ''function:b.js#g'' ''b.js'' ''z y a b c d e z''])) \<and>
   overlapSimilarity (exCand ''function:a.js#f'' ''a.js'') (exCandLong ''function:b.js#g'' ''b.js'')
     = 5 / 8 \<and>
   max (overlapSimilarity (exCand ''function:a.js#f'' ''a.js'')
                          (exCandLong ''function:b.js#g'' ''b.js''))
       (diceSpec [''a'', ''b'', ''c'', ''d'', ''e'']
                 [''z'', ''y'', ''a'', ''b'', ''c'', ''d'', ''e'', ''z'']) = toDouble (10 / 13) \<and>
   (\<exists>e \<in> set (entriesOf (findSymbolClones ''/repo''
                   [exSym ''function:a.js#f'' ''a.js'' ''a b c d e'',
                    exSym ''function:b.js#g'' ''b.js'' ''z y a b c d e z''] DEFAULT_THRESHOLD)
                 ''function:a.js#f'').
      ce_targetId e = ''function:b.js#g'' \<and> ce_similarity e = toDouble (77 / 100))"
proof -
  let ?es = "[exSym ''function:a.js#f'' ''a.js'' ''a b c d e'',
              exSym ''function:b.js#g'' ''b.js'' ''z y a b c d e z'']"
  let ?a = "exCand ''function:a.js#f'' ''a.js''"
  let ?b = "exCandLong ''function:b.js#g'' ''b.js''"
  let ?E = "set (entriesOf (findSymbolClones ''/repo'' ?es DEFAULT_THRESHOLD) ''function:a.js#f'')"
  have d: "distinct (map sym_id (filter isFunctionLike ?es))"
    by (simp add: ex_isFunctionLike ex_sym_id)
  have p: "(?a, ?b) \<in> set (comparedPairs (cloneCandidates ''/repo'' ?es))"
    by (simp add: ex_candidates_long ex_comparedPairs_long)
  have ia: "cs_id ?a = ''function:a.js#f''" and ib: "cs_id ?b = ''function:b.js#g''"
    and ta: "cs_tokens ?a = [''a'', ''b'', ''c'', ''d'', ''e'']"
    and tb: "cs_tokens ?b = [''z'', ''y'', ''a'', ''b'', ''c'', ''d'', ''e'', ''z'']"
    by (simp_all add: exCand_def exCandLong_def)
  have s: "pairSimilarity ?a ?b = toDouble (10 / 13)" by (rule ex_pairSimilarity_long)
  have o: "overlapSimilarity ?a ?b = 5 / 8"
    using pairOverlap_similarity[of ?a ?b] by (simp add: ex_pairOverlap_long)
  have th: "toDouble (55 / 100) = 4953959590107546 / 9007199254740992"
    by (simp add: toDouble_eval)
  have ge: "toDouble (55 / 100) \<le> toDouble (10 / 13)"
    unfolding th ex_toDouble_dice by simp
  note t = compared_pair_similarity[OF d p, unfolded ia ib ta tb s]
  from t have m: "max (overlapSimilarity ?a ?b)
                    (diceSpec [''a'', ''b'', ''c'', ''d'', ''e'']
                              [''z'', ''y'', ''a'', ''b'', ''c'', ''d'', ''e'', ''z'']) =
                  toDouble (10 / 13)"
    by simp
  from t ge have "\<exists>e \<in> ?E. ce_targetId e = ''function:b.js#g''" by blast
  then obtain e where e: "e \<in> ?E" "ce_targetId e = ''function:b.js#g''" by blast
  with t have "ce_similarity e = toFixed2 (toDouble (10 / 13))" by blast
  then have "ce_similarity e = toDouble (77 / 100)" by (simp only: ex_toFixed2_long)
  with e d p o m show ?thesis by blast
qed

theorem min_tokens_boundary_witness:
  "distinct (map sym_id (filter isFunctionLike
      [exSym ''function:a.js#f'' ''a.js'' ''a b c d e'',
       exSym ''function:b.js#g'' ''b.js'' ''a b c d e'',
       exSym ''function:c.js#h'' ''c.js'' ''a b c d''])) \<and>
   isFunctionLike (exSym ''function:c.js#h'' ''c.js'' ''a b c d'') \<and>
   length (tm_tokens (tokenizeWithMeta (sym_text (exSym ''function:c.js#h'' ''c.js'' ''a b c d'')))) = 4 \<and>
   findSymbolClones ''/repo''
      [exSym ''function:a.js#f'' ''a.js'' ''a b c d e'',
       exSym ''function:b.js#g'' ''b.js'' ''a b c d e'',
       exSym ''function:c.js#h'' ''c.js'' ''a b c d''] DEFAULT_THRESHOLD ''function:c.js#h'' = None \<and>
   isFunctionLike (exSym ''function:a.js#f'' ''a.js'' ''a b c d e'') \<and>
   length (tm_tokens (tokenizeWithMeta (sym_text (exSym ''function:a.js#f'' ''a.js'' ''a b c d e'')))) = 5 \<and>
   (\<exists>en \<in> set (entriesOf (findSymbolClones ''/repo''
                   [exSym ''function:a.js#f'' ''a.js'' ''a b c d e'',
                    exSym ''function:b.js#g'' ''b.js'' ''a b c d e'',
                    exSym ''function:c.js#h'' ''c.js'' ''a b c d''] DEFAULT_THRESHOLD)
                  ''function:a.js#f'').
      ce_targetId en = ''function:b.js#g'') \<and>
   (\<exists>en \<in> set (entriesOf (findSymbolClones ''/repo''
                   [exSym ''function:a.js#f'' ''a.js'' ''a b c d e'',
                    exSym ''function:b.js#g'' ''b.js'' ''a b c d e'',
                    exSym ''function:c.js#h'' ''c.js'' ''a b c d''] DEFAULT_THRESHOLD)
                  ''function:b.js#g'').
      ce_targetId en = ''function:a.js#f'')"
proof -
  let ?A = "exSym ''function:a.js#f'' ''a.js'' ''a b c d e''"
  let ?B = "exSym ''function:b.js#g'' ''b.js'' ''a b c d e''"
  let ?C = "exSym ''function:c.js#h'' ''c.js'' ''a b c d''"
  let ?es = "[?A, ?B, ?C]"
  let ?a = "exCand ''function:a.js#f'' ''a.js''" and ?b = "exCand ''function:b.js#g'' ''b.js''"
  let ?M = "findSymbolClones ''/repo'' ?es DEFAULT_THRESHOLD"
  have d: "distinct (map sym_id (filter isFunctionLike ?es))"
    by (simp add: ex_isFunctionLike ex_sym_id)
  have mC: "?C \<in> set ?es" and mA: "?A \<in> set ?es" by simp_all
  have fC: "isFunctionLike ?C" and fA: "isFunctionLike ?A" by (rule ex_isFunctionLike)+
  have tC: "sym_text ?C = ''a b c d''" and tA: "sym_text ?A = ''a b c d e''"
    and iC: "sym_id ?C = ''function:c.js#h''" and iA: "sym_id ?A = ''function:a.js#f''"
    by (simp_all add: exSym_def)
  have lC: "length (tm_tokens (tokenizeWithMeta (sym_text ?C))) = 4"
    unfolding tC by (simp add: ex_tokenize4)
  have lA: "length (tm_tokens (tokenizeWithMeta (sym_text ?A))) = 5"
    unfolding tA by (simp add: ex_tokenize)
  have cands: "cloneCandidates ''/repo'' ?es = [?a, ?b]" by (rule ex_candidates_mixed)
  have ia: "cs_id ?a = ''function:a.js#f''" and ib: "cs_id ?b = ''function:b.js#g''"
    by (simp_all add: exCand_def)
  have ne: "?b \<noteq> ?a" using ia ib by auto
  have budget: "length (compatiblePairs [?a, ?b]) \<le> MAX_PAIRS"
    by (simp add: compatiblePairs_def MAX_PAIRS_def)
  have sim: "similarityOf [?a, ?b] ?a ?b \<ge> DEFAULT_THRESHOLD"
    by (simp add: similarityOf_def ex_pairSimilarity ex_threshold)
  from min_tokens_boundary[OF d mC fC, of "''/repo''" DEFAULT_THRESHOLD] lC
  have 1: "?M ''function:c.js#h'' = None"
    unfolding iC by simp
  from min_tokens_boundary[OF d mA fA, of "''/repo''" DEFAULT_THRESHOLD] lA
  obtain c where c: "c \<in> set [?a, ?b]" "cs_id c = ''function:a.js#f''"
    and all: "\<forall>c' \<in> set [?a, ?b].
                c' \<noteq> c \<and> languagesAreCompatible (cs_language c) (cs_language c') \<and>
                length (compatiblePairs [?a, ?b]) \<le> MAX_PAIRS \<longrightarrow>
                ((\<exists>en \<in> set (entriesOf ?M ''function:a.js#f''). ce_targetId en = cs_id c') \<longleftrightarrow>
                 similarityOf [?a, ?b] c c' \<ge> DEFAULT_THRESHOLD) \<and>
                ((\<exists>en \<in> set (entriesOf ?M (cs_id c')). ce_targetId en = ''function:a.js#f'') \<longleftrightarrow>
                 similarityOf [?a, ?b] c c' \<ge> DEFAULT_THRESHOLD)"
    unfolding iA cands by (auto simp: exSym_def)
  from c ib have ca: "c = ?a" by auto
  from all[rule_format, of ?b] ne ex_compatible[of "''function:a.js#f''" "''a.js''"
      "''function:b.js#g''" "''b.js''"] budget sim
  have 2: "\<exists>en \<in> set (entriesOf ?M ''function:a.js#f''). ce_targetId en = ''function:b.js#g''"
    and 3: "\<exists>en \<in> set (entriesOf ?M ''function:b.js#g''). ce_targetId en = ''function:a.js#f''"
    unfolding ca ib by simp_all
  show ?thesis using d fC lC 1 fA lA 2 3 by blast
qed

section \<open>Verification of export usage\<close>

lemma wfUsage_None_iff: "wfUsage U \<Longrightarrow> U k = None \<longleftrightarrow> getSet U k = {}"
  by (auto simp: wfUsage_def getSet_def split: option.splits)

lemma wfUsage_empty: "wfUsage Map.empty"
  by (simp add: wfUsage_def)

lemma credit_wf: "wfUsage (snd st) \<Longrightarrow> wfUsage (snd (credit t n src st))"
  by (cases st) (auto simp: credit_def wfUsage_def Let_def split: option.splits)

lemma credit_getSet:
  assumes "seenInv src st"
  shows "getSet (snd (credit t n src st)) k =
           (if k = t @ ''#'' @ n then insert src (getSet (snd st) k) else getSet (snd st) k)"
proof -
  obtain seen U where st: "st = (seen, U)" by (cases st)
  show ?thesis
  proof (cases "(t @ ''#'' @ n) @ ''::'' @ src \<in> seen")
    case True
    then have "src \<in> getSet U (t @ ''#'' @ n)" using assms unfolding seenInv_def st by auto
    then show ?thesis using True unfolding st by (auto simp: credit_def Let_def)
  next
    case False
    then show ?thesis unfolding st by (auto simp: credit_def Let_def getSet_def)
  qed
qed

lemma credit_seenInv:
  assumes "seenInv src st"
  shows "seenInv src (credit t n src st)"
proof -
  obtain seen U where st: "st = (seen, U)" by (cases st)
  show ?thesis
  proof (cases "(t @ ''#'' @ n) @ ''::'' @ src \<in> seen")
    case True
    then show ?thesis using assms unfolding st by (simp add: credit_def Let_def)
  next
    case False
    have "src \<in> getSet (snd (credit t n src (seen, U))) key"
      if "key @ ''::'' @ src \<in> fst (credit t n src (seen, U))" for key
    proof (cases "key = t @ ''#'' @ n")
      case True
      then show ?thesis using credit_getSet[OF assms, of t n key] unfolding st by simp
    next
      case ne: False
      then have "key @ ''::'' @ src \<in> seen" using that False by (auto simp: credit_def Let_def)
      then have "src \<in> getSet U key" using assms unfolding seenInv_def st by auto
      then show ?thesis using credit_getSet[OF assms, of t n key] ne unfolding st by simp
    qed
    then show ?thesis unfolding seenInv_def st by blast
  qed
qed

lemma fold_credit:
  assumes "seenInv src st"
  shows "seenInv src (fold (\<lambda>name st'. if Q name then credit t name src st' else st') ns st) \<and>
         (\<forall>k. getSet (snd (fold (\<lambda>name st'. if Q name then credit t name src st' else st') ns st)) k =
               getSet (snd st) k \<union>
               (if \<exists>name \<in> set ns. Q name \<and> k = t @ ''#'' @ name then {src} else {}))"
  using assms
proof (induction ns arbitrary: st)
  case Nil
  then show ?case by simp
next
  case (Cons n ns)
  let ?st1 = "if Q n then credit t n src st else st"
  have i1: "seenInv src ?st1"
  proof (cases "Q n")
    case True
    then show ?thesis using credit_seenInv[OF Cons.prems] by simp
  next
    case False
    then show ?thesis using Cons.prems by simp
  qed
  have g1: "getSet (snd ?st1) k =
              getSet (snd st) k \<union> (if Q n \<and> k = t @ ''#'' @ n then {src} else {})" for k
  proof (cases "Q n")
    case True
    have e: "getSet (snd ?st1) k =
               (if k = t @ ''#'' @ n then insert src (getSet (snd st) k) else getSet (snd st) k)"
      using True credit_getSet[OF Cons.prems, of t n k] by (simp only: if_True)
    show ?thesis unfolding e using True by auto
  next
    case False
    then show ?thesis by simp
  qed
  have f: "fold (\<lambda>name st'. if Q name then credit t name src st' else st') (n # ns) st =
           fold (\<lambda>name st'. if Q name then credit t name src st' else st') ns ?st1"
    by simp
  note ih = Cons.IH[OF i1]
  show ?case unfolding f
  proof (intro conjI allI)
    show "seenInv src (fold (\<lambda>name st'. if Q name then credit t name src st' else st') ns ?st1)"
      using ih by blast
  next
    fix k
    have "getSet (snd (fold (\<lambda>name st'. if Q name then credit t name src st' else st') ns ?st1)) k =
          getSet (snd ?st1) k \<union>
            (if \<exists>name \<in> set ns. Q name \<and> k = t @ ''#'' @ name then {src} else {})"
      using ih by blast
    also have "\<dots> = getSet (snd st) k \<union>
            (if \<exists>name \<in> set (n # ns). Q name \<and> k = t @ ''#'' @ name then {src} else {})"
      unfolding g1 by auto
    finally show "getSet (snd (fold (\<lambda>name st'. if Q name then credit t name src st' else st') ns ?st1)) k =
          getSet (snd st) k \<union>
            (if \<exists>name \<in> set (n # ns). Q name \<and> k = t @ ''#'' @ name then {src} else {})" .
  qed
qed

lemma fold_wf_generic:
  assumes step: "\<And>x st. wfUsage (snd st) \<Longrightarrow> wfUsage (snd (f x st))"
  shows "wfUsage (snd st) \<Longrightarrow> wfUsage (snd (fold f xs st))"
proof (induction xs arbitrary: st)
  case Nil
  then show ?case by simp
next
  case (Cons x xs)
  have "wfUsage (snd (f x st))" using Cons.prems by (rule step)
  then have "wfUsage (snd (fold f xs (f x st)))" by (rule Cons.IH)
  then show ?case by simp
qed

lemma importStep_wf:
  assumes "wfUsage (snd st)"
  shows "wfUsage (snd (importStep res ex src imp st))"
proof (cases "res (src @ ''::'' @ imp_specifier imp)")
  case None
  then show ?thesis using assms by (simp add: importStep_def)
next
  case (Some target)
  let ?ex = "case ex target of Some s \<Rightarrow> s | None \<Rightarrow> []"
  have a: "wfUsage (snd (fold (\<lambda>name. credit target name src) ?ex st))"
    using assms by (rule fold_wf_generic[rotated]) (rule credit_wf)
  have b: "wfUsage (snd (fold (\<lambda>name st'.
                             let exportName = (if name = [] then ''default'' else name)
                             in if exportName \<notin> set ?ex then st'
                                else credit target exportName src st')
                          (imp_names imp) st))"
    using assms
  proof (rule fold_wf_generic[rotated])
    fix x :: string and st' :: usageState
    assume "wfUsage (snd st')"
    then show "wfUsage (snd (let exportName = (if x = [] then ''default'' else x)
                             in if exportName \<notin> set ?ex then st'
                                else credit target exportName src st'))"
      using credit_wf by (simp add: Let_def)
  qed
  show ?thesis using Some assms a b by (simp add: importStep_def Let_def)
qed

lemma fileStep_wf:
  assumes "wfUsage U"
  shows "wfUsage (fileStep res ex entry U)"
proof -
  obtain src imps where e: "entry = (src, imps)" by (cases entry)
  have "wfUsage (snd ({}::string set, U))" using assms by simp
  then have "wfUsage (snd (fold (importStep res ex src) imps ({}, U)))"
    by (rule fold_wf_generic[rotated]) (rule importStep_wf)
  then show ?thesis unfolding e by (simp add: fileStep_def)
qed

lemma exportUsageSets_wf: "wfUsage (exportUsageSets importsByFile ex edges)"
proof -
  have "wfUsage U \<Longrightarrow> wfUsage (fold (fileStep res ex) fs U)" for res fs U
    by (induction fs arbitrary: U) (simp_all add: fileStep_wf)
  then show ?thesis unfolding exportUsageSets_def using wfUsage_empty by blast
qed


lemma named_fold_eq:
  assumes "[] \<notin> set ns"
  shows "fold (\<lambda>name st'.
                 let exportName = (if name = [] then ''default'' else name)
                 in if exportName \<notin> set exs then st'
                    else credit target exportName src st') ns st =
         fold (\<lambda>name st'. if name \<in> set exs then credit target name src st' else st') ns st"
  using assms
proof (induction ns arbitrary: st)
  case Nil
  then show ?case by simp
next
  case (Cons n ns)
  then have n: "n \<noteq> []" and r: "[] \<notin> set ns" by auto
  show ?case using n Cons.IH[OF r] by (cases "n \<in> set exs") (simp_all add: Let_def)
qed

lemma importStep_getSet:
  assumes inv: "seenInv src st" and names: "[] \<notin> set (imp_names imp)"
  shows "seenInv src (importStep (buildResolution edges) ex src imp st) \<and>
         (\<forall>k. getSet (snd (importStep (buildResolution edges) ex src imp st)) k =
               getSet (snd st) k \<union>
               (if k \<in> creditedKeys edges ex src imp then {src} else {}))"
proof (cases "buildResolution edges (src @ ''::'' @ imp_specifier imp)")
  case None
  then show ?thesis using inv by (simp add: importStep_def creditedKeys_def)
next
  case (Some target)
  show ?thesis
  proof (cases "target = []")
    case True
    then show ?thesis using Some inv by (simp add: importStep_def creditedKeys_def)
  next
    case False
    define exs where "exs = (case ex target of Some s \<Rightarrow> s | None \<Rightarrow> [])"
    show ?thesis
    proof (cases "imp_hasNamespace imp")
      case True
      have step: "importStep (buildResolution edges) ex src imp st =
                  fold (\<lambda>name st'. if True then credit target name src st' else st') exs st"
        using Some False True by (simp add: importStep_def exs_def)
      have keys: "k \<in> creditedKeys edges ex src imp \<longleftrightarrow>
                  (\<exists>name \<in> set exs. True \<and> k = target @ ''#'' @ name)" for k
        using Some False True by (auto simp: creditedKeys_def creditedNames_def exs_def)
      show ?thesis unfolding step keys by (rule fold_credit[OF inv])
    next
      case ns: False
      have "importStep (buildResolution edges) ex src imp st =
              fold (\<lambda>name st'.
                      let exportName = (if name = [] then ''default'' else name)
                      in if exportName \<notin> set exs then st'
                         else credit target exportName src st') (imp_names imp) st"
        using Some False ns by (simp add: importStep_def exs_def)
      then have step: "importStep (buildResolution edges) ex src imp st =
                  fold (\<lambda>name st'. if name \<in> set exs then credit target name src st' else st')
                       (imp_names imp) st"
        by (simp only: named_fold_eq[OF names])
      have keys: "k \<in> creditedKeys edges ex src imp \<longleftrightarrow>
                  (\<exists>name \<in> set (imp_names imp). name \<in> set exs \<and> k = target @ ''#'' @ name)" for k
        using Some False ns by (auto simp: creditedKeys_def creditedNames_def exs_def)
      show ?thesis unfolding step keys by (rule fold_credit[OF inv])
    qed
  qed
qed

lemma fold_importStep:
  assumes inv: "seenInv src st" and names: "list_all (\<lambda>imp. [] \<notin> set (imp_names imp)) imps"
  shows "seenInv src (fold (importStep (buildResolution edges) ex src) imps st) \<and>
         (\<forall>k. getSet (snd (fold (importStep (buildResolution edges) ex src) imps st)) k =
               getSet (snd st) k \<union>
               (if \<exists>imp \<in> set imps. k \<in> creditedKeys edges ex src imp then {src} else {}))"
  using assms
proof (induction imps arbitrary: st)
  case Nil
  then show ?case by simp
next
  case (Cons imp imps)
  let ?st1 = "importStep (buildResolution edges) ex src imp st"
  have n1: "[] \<notin> set (imp_names imp)" and n2: "list_all (\<lambda>imp. [] \<notin> set (imp_names imp)) imps"
    using Cons.prems(2) by simp_all
  note s1 = importStep_getSet[OF Cons.prems(1) n1, of edges ex]
  from s1 have i1: "seenInv src ?st1" by blast
  note ih = Cons.IH[OF i1 n2]
  have f: "fold (importStep (buildResolution edges) ex src) (imp # imps) st =
           fold (importStep (buildResolution edges) ex src) imps ?st1" by simp
  show ?case unfolding f
  proof (intro conjI allI)
    show "seenInv src (fold (importStep (buildResolution edges) ex src) imps ?st1)"
      using ih by blast
  next
    fix k
    have "getSet (snd (fold (importStep (buildResolution edges) ex src) imps ?st1)) k =
          getSet (snd ?st1) k \<union>
            (if \<exists>imp \<in> set imps. k \<in> creditedKeys edges ex src imp then {src} else {})"
      using ih by blast
    also have "getSet (snd ?st1) k = getSet (snd st) k \<union>
            (if k \<in> creditedKeys edges ex src imp then {src} else {})"
      using s1 by blast
    finally show "getSet (snd (fold (importStep (buildResolution edges) ex src) imps ?st1)) k =
          getSet (snd st) k \<union>
            (if \<exists>imp \<in> set (imp # imps). k \<in> creditedKeys edges ex src imp then {src} else {})"
      by auto
  qed
qed

lemma fileStep_getSet:
  assumes "list_all (\<lambda>imp. [] \<notin> set (imp_names imp)) (snd entry)"
  shows "getSet (fileStep (buildResolution edges) ex entry U) k =
           getSet U k \<union>
           (if \<exists>imp \<in> set (snd entry). k \<in> creditedKeys edges ex (fst entry) imp
            then {fst entry} else {})"
proof -
  obtain src imps where e: "entry = (src, imps)" by (cases entry)
  have inv: "seenInv src ({}, U)" by (simp add: seenInv_def)
  from fold_importStep[OF inv, of imps edges ex] assms
  show ?thesis unfolding e by (simp add: fileStep_def)
qed

lemma exportUsageSets_getSet:
  assumes "namesPresent importsByFile"
  shows "getSet (exportUsageSets importsByFile ex edges) k =
           creditingImporters importsByFile ex edges k"
proof -
  have g: "list_all (\<lambda>entry. list_all (\<lambda>imp. [] \<notin> set (imp_names imp)) (snd entry)) fs \<Longrightarrow>
           getSet (fold (fileStep (buildResolution edges) ex) fs U) k =
             getSet U k \<union>
             fst ` {entry \<in> set fs.
                      \<exists>imp \<in> set (snd entry). k \<in> creditedKeys edges ex (fst entry) imp}"
    for fs U
  proof (induction fs arbitrary: U)
    case Nil
    then show ?case by simp
  next
    case (Cons entry fs)
    have n1: "list_all (\<lambda>imp. [] \<notin> set (imp_names imp)) (snd entry)"
      and n2: "list_all (\<lambda>entry. list_all (\<lambda>imp. [] \<notin> set (imp_names imp)) (snd entry)) fs"
      using Cons.prems by simp_all
    have "getSet (fold (fileStep (buildResolution edges) ex) (entry # fs) U) k =
          getSet (fileStep (buildResolution edges) ex entry U) k \<union>
             fst ` {entry \<in> set fs.
                      \<exists>imp \<in> set (snd entry). k \<in> creditedKeys edges ex (fst entry) imp}"
      using Cons.IH[OF n2] by simp
    also have "\<dots> = getSet U k \<union>
           (if \<exists>imp \<in> set (snd entry). k \<in> creditedKeys edges ex (fst entry) imp
            then {fst entry} else {}) \<union>
             fst ` {entry \<in> set fs.
                      \<exists>imp \<in> set (snd entry). k \<in> creditedKeys edges ex (fst entry) imp}"
      unfolding fileStep_getSet[OF n1] ..
    also have "\<dots> = getSet U k \<union>
             fst ` {e \<in> set (entry # fs).
                      \<exists>imp \<in> set (snd e). k \<in> creditedKeys edges ex (fst e) imp}"
      by auto
    finally show ?case .
  qed
  have "getSet Map.empty k = {}" by (simp add: getSet_def)
  then show ?thesis
    using g[of importsByFile Map.empty] assms
    unfolding exportUsageSets_def creditingImporters_def namesPresent_def by simp
qed

lemma creditingImporters_finite: "finite (creditingImporters importsByFile ex edges k)"
  by (simp add: creditingImporters_def)

text \<open>
  Claim C4.  Let no import descriptor hold an empty imported name (the extraction pass
  records none).  Then the published count of every key \<open>target#name\<close> is the number of
  distinct importer files that credit it: a file credits the key when one of its import
  descriptors resolves, through the local dependency edges, to \<open>target\<close> and either is a
  namespace import and \<open>name\<close> is in the target's export set, or names \<open>name\<close> and \<open>name\<close> is
  in the target's export set.  A key no file credits is absent.
\<close>

theorem exportUsage_counts_importers:
  assumes "namesPresent importsByFile"
  shows "exportUsage importsByFile exportsByFile edges key =
           (if creditingImporters importsByFile exportsByFile edges key = {} then None
            else Some (card (creditingImporters importsByFile exportsByFile edges key)))"
proof -
  let ?U = "exportUsageSets importsByFile exportsByFile edges"
  have wf: "wfUsage ?U" by (rule exportUsageSets_wf)
  have g: "getSet ?U key = creditingImporters importsByFile exportsByFile edges key"
    by (rule exportUsageSets_getSet[OF assms])
  show ?thesis
  proof (cases "?U key")
    case None
    then have "getSet ?U key = {}" by (simp add: getSet_def)
    then show ?thesis using None g by (simp add: exportUsage_def)
  next
    case (Some s)
    then have "getSet ?U key = s" by (simp add: getSet_def)
    moreover have "s \<noteq> {}" using wf Some by (auto simp: wfUsage_def)
    ultimately show ?thesis using Some g by (simp add: exportUsage_def)
  qed
qed

text \<open>
  Claim C10.  Every count in the published map is at least 1; and (when no import
  descriptor holds an empty name) a key that no importer credits is not in the map.
\<close>

theorem exportUsage_positive:
  "(\<forall>n. exportUsage importsByFile exportsByFile edges key = Some n \<longrightarrow> 1 \<le> n) \<and>
   (namesPresent importsByFile \<and>
    creditingImporters importsByFile exportsByFile edges key = {} \<longrightarrow>
      exportUsage importsByFile exportsByFile edges key = None)"
proof (intro conjI allI impI)
  let ?U = "exportUsageSets importsByFile exportsByFile edges"
  fix n assume a: "exportUsage importsByFile exportsByFile edges key = Some n"
  then obtain s where s: "?U key = Some s" "n = card s" by (auto simp: exportUsage_def)
  have "finite s \<and> s \<noteq> {}" using exportUsageSets_wf s(1) unfolding wfUsage_def by blast
  then have "0 < card s" by (simp add: card_gt_0_iff)
  then show "1 \<le> n" using s(2) by simp
next
  let ?U = "exportUsageSets importsByFile exportsByFile edges"
  assume a: "namesPresent importsByFile \<and>
             creditingImporters importsByFile exportsByFile edges key = {}"
  then have "getSet ?U key = {}" using exportUsageSets_getSet[of importsByFile] by simp
  then have "?U key = None" using wfUsage_None_iff[OF exportUsageSets_wf] by blast
  then show "exportUsage importsByFile exportsByFile edges key = None"
    by (simp add: exportUsage_def)
qed

subsection \<open>The example project\<close>

lemma ex_namesPresent: "namesPresent exImports"
  by (simp add: namesPresent_def exImports_def)

lemma ex_resolution:
  "buildResolution exEdges ''b.js::./a.js'' = Some ''a.js''"
  "buildResolution exEdges ''c.js::./a.js'' = Some ''a.js''"
  by (simp_all add: buildResolution_def exEdges_def normalizePath_def)

lemma ex_creditedKeys_b1:
  "creditedKeys exEdges exExports ''b.js''
     \<lparr>imp_specifier = ''./a.js'', imp_names = [''foo''], imp_hasNamespace = False\<rparr> = {''a.js#foo''}"
  using ex_resolution(1) by (simp add: creditedKeys_def creditedNames_def exExports_def)

lemma ex_creditedKeys_b2:
  "creditedKeys exEdges exExports ''b.js''
     \<lparr>imp_specifier = ''./a.js'', imp_names = [''foo'', ''qux''], imp_hasNamespace = False\<rparr> =
   {''a.js#foo''}"
  using ex_resolution(1) by (simp add: creditedKeys_def creditedNames_def exExports_def)

lemma ex_creditedKeys_c:
  "creditedKeys exEdges exExports ''c.js''
     \<lparr>imp_specifier = ''./a.js'', imp_names = [], imp_hasNamespace = True\<rparr> =
   {''a.js#foo'', ''a.js#bar''}"
  using ex_resolution(2) by (simp add: creditedKeys_def creditedNames_def exExports_def)

lemma creditingImporters_Nil: "creditingImporters [] exportsByFile edges key = {}"
  by (simp add: creditingImporters_def)

lemma creditingImporters_Cons:
  "creditingImporters (entry # rest) exportsByFile edges key =
     (if \<exists>imp \<in> set (snd entry). key \<in> creditedKeys edges exportsByFile (fst entry) imp
      then {fst entry} else {}) \<union> creditingImporters rest exportsByFile edges key"
  unfolding creditingImporters_def by auto

lemma ex_crediting:
  "creditingImporters exImports exExports exEdges ''a.js#foo'' = {''b.js'', ''c.js''}"
  "creditingImporters exImports exExports exEdges ''a.js#bar'' = {''c.js''}"
  "creditingImporters exImports exExports exEdges ''a.js#qux'' = {}"
  unfolding exImports_def
  by (simp_all add: creditingImporters_Cons creditingImporters_Nil
        ex_creditedKeys_b1 ex_creditedKeys_b2 ex_creditedKeys_c insert_commute)

theorem exportUsage_counts_importers_witness:
  "namesPresent exImports \<and>
   exportUsage exImports exExports exEdges ''a.js#foo'' = Some 2 \<and>
   exportUsage exImports exExports exEdges ''a.js#bar'' = Some 1 \<and>
   exportUsage exImports exExports exEdges ''a.js#qux'' = None"
  using exportUsage_counts_importers[OF ex_namesPresent, of exExports exEdges]
  by (simp add: ex_crediting ex_namesPresent)

theorem exportUsage_positive_witness:
  "namesPresent exImports \<and>
   creditingImporters exImports exExports exEdges ''a.js#qux'' = {} \<and>
   exportUsage exImports exExports exEdges ''a.js#qux'' = None \<and>
   exportUsage exImports exExports exEdges ''a.js#bar'' \<noteq> Some 0"
proof -
  have c: "creditingImporters exImports exExports exEdges ''a.js#qux'' = {}"
    by (simp add: ex_crediting)
  note t = exportUsage_positive[of exImports exExports exEdges]
  from t[of "''a.js#qux''"] ex_namesPresent c
  have 1: "exportUsage exImports exExports exEdges ''a.js#qux'' = None" by blast
  from t[of "''a.js#bar''"]
  have 2: "exportUsage exImports exExports exEdges ''a.js#bar'' \<noteq> Some 0" by auto
  show ?thesis using ex_namesPresent c 1 2 by blast
qed

section \<open>Verification of the fallback symbol\<close>

lemma lineOffsetsFrom_length:
  "length (lineOffsetsFrom pos content) = length (filter (\<lambda>c. c = newline) content)"
  by (induction content arbitrary: pos) simp_all

lemma createFallbackSymbol_nonblank:
  assumes "trim content \<noteq> []"
  shows "\<exists>s. createFallbackSymbol content relativePath language = [s] \<and>
             sym_kind s = ''file'' \<and>
             sym_id s = ''file:'' @ normalizePath relativePath @ ''#__file__'' \<and>
             sym_startLine s = 1 \<and>
             sym_endLine s = 1 + int (length (filter (\<lambda>c. c = newline) content))"
proof -
  from assms have "content \<noteq> []" by (auto simp: trim_def)
  with assms show ?thesis
    by (simp add: createFallbackSymbol_def Let_def buildLineOffsets_def lineOffsetsFrom_length)
qed

lemma ex_resolve:
  "pathResolve exHost [''/proj'', ''README.md''] = ''/proj/README.md''"
  "pathResolve exHost [''/proj'', ''empty.md''] = ''/proj/empty.md''"
  "pathResolve exHost [''/proj'', ''blank.js''] = ''/proj/blank.js''"
  "pathResolve exHost [''/proj'', ''broken.js''] = ''/proj/broken.js''"
  by (simp_all add: pathResolve_def normalizeSegments_def exHost_def)

text \<open>A file whose content is empty or only white space yields no symbol, whatever its
  language, when it is not parsed or the parser throws.\<close>

lemma blank_content_has_no_symbol:
  assumes "node h (pathResolve h [rootPath, f_path file]) = File content"
    and "trim content = []"
    and "(language \<noteq> ''JavaScript'' \<and> language \<noteq> ''TypeScript'') \<or>
         parse content (f_path file) language = None"
  shows "extractSymbolsForFile h parse rootPath file language = []"
proof -
  have f: "createFallbackSymbol content (f_path file) language = []"
    using assms(2) by (simp add: createFallbackSymbol_def)
  have "extractSymbolsFromContent parse content (f_path file) language =
          createFallbackSymbol content (f_path file) language"
    using assms(3) by (auto simp: extractSymbolsFromContent_def Let_def)
  then show ?thesis using assms(1) f by (simp add: extractSymbolsForFile_def Let_def)
qed

text \<open>
  Claim C8, as the code has it.  Take a file that exists and is read, of at most 256 KiB,
  whose content holds a character that is not white space.  If its language is neither
  JavaScript nor TypeScript, or the parser throws on it, symbol extraction returns exactly
  one symbol: of kind \<open>file\<close>, with id \<open>file:{path}#__file__\<close> (the path with backslashes
  turned into slashes), starting at line 1 and ending at the last line of the file (one
  more than the number of newlines).
\<close>

theorem fallback_symbol_for_unparsed:
  assumes "node h (pathResolve h [rootPath, f_path file]) = File content"
    and "f_size file \<le> MAX_FILE_BYTES"
    and "trim content \<noteq> []"
    and "(language \<noteq> ''JavaScript'' \<and> language \<noteq> ''TypeScript'') \<or>
         parse content (f_path file) language = None"
  shows "\<exists>s. extractSymbolsForFile h parse rootPath file language = [s] \<and>
             sym_kind s = ''file'' \<and>
             sym_id s = ''file:'' @ normalizePath (f_path file) @ ''#__file__'' \<and>
             sym_startLine s = 1 \<and>
             sym_endLine s = 1 + int (length (filter (\<lambda>c. c = newline) content))"
proof -
  have "extractSymbolsFromContent parse content (f_path file) language =
          createFallbackSymbol content (f_path file) language"
    using assms(4) by (auto simp: extractSymbolsFromContent_def Let_def)
  with assms(1,2)
  have "extractSymbolsForFile h parse rootPath file language =
          createFallbackSymbol content (f_path file) language"
    by (simp add: extractSymbolsForFile_def Let_def)
  with createFallbackSymbol_nonblank[OF assms(3)] show ?thesis by simp
qed

text \<open>
  Counterexample to claim C8 as stated: an empty Markdown file, and a JavaScript file that
  holds only white space and on which the parser throws, both yield no symbol at all
  (the guard \<^verbatim>\<open>!content || !content.trim()\<close> of \<^verbatim>\<open>createFallbackSymbol\<close>).
\<close>

theorem blank_file_has_no_symbol:
  "extractSymbolsForFile exHost failingParser ''/proj'' (exFile ''empty.md'' ''.md'' 0) ''Markdown'' = [] \<and>
   extractSymbolsForFile exHost failingParser ''/proj'' (exFile ''blank.js'' ''.js'' 2) ''JavaScript'' = []"
proof -
  have n: "node exHost ''/proj/empty.md'' = File []"
    "node exHost ''/proj/blank.js'' = File [CHR '' '', newline]"
    by (simp_all add: exHost_def exNode_def)
  have t: "trim [CHR '' '', newline] = []"
    by (simp add: trim_def whiteSpace_def newline_def)
  show ?thesis
    by (simp add: extractSymbolsForFile_def exFile_def ex_resolve n MAX_FILE_BYTES_def
          extractSymbolsFromContent_def failingParser_def createFallbackSymbol_def t)
qed

theorem fallback_symbol_for_unparsed_witness:
  "node exHost (pathResolve exHost [''/proj'', f_path (exFile ''broken.js'' ''.js'' 12)]) =
     File (''function ('' @ [newline] @ ''}'') \<and>
   f_size (exFile ''broken.js'' ''.js'' 12) \<le> MAX_FILE_BYTES \<and>
   trim (''function ('' @ [newline] @ ''}'') \<noteq> [] \<and>
   failingParser (''function ('' @ [newline] @ ''}'') (f_path (exFile ''broken.js'' ''.js'' 12))
     ''JavaScript'' = None \<and>
   (\<exists>s. extractSymbolsForFile exHost failingParser ''/proj'' (exFile ''broken.js'' ''.js'' 12)
          ''JavaScript'' = [s] \<and>
        sym_kind s = ''file'' \<and> sym_id s = ''file:broken.js#__file__'' \<and>
        sym_startLine s = 1 \<and> sym_endLine s = 2)"
proof -
  let ?c = "''function ('' @ [newline] @ ''}''" and ?f = "exFile ''broken.js'' ''.js'' 12"
  have 1: "node exHost (pathResolve exHost [''/proj'', f_path ?f]) = File ?c"
    by (simp add: exFile_def ex_resolve) (simp add: exHost_def exNode_def)
  have 2: "f_size ?f \<le> MAX_FILE_BYTES" by (simp add: exFile_def MAX_FILE_BYTES_def)
  have 3: "trim ?c \<noteq> []" by (simp add: trim_def whiteSpace_def newline_def)
  have 4: "failingParser ?c (f_path ?f) ''JavaScript'' = None" by (simp add: failingParser_def)
  have 5: "(''JavaScript'' \<noteq> ''JavaScript'' \<and> ''JavaScript'' \<noteq> ''TypeScript'') \<or>
           failingParser ?c (f_path ?f) ''JavaScript'' = None"
    using 4 by simp
  from fallback_symbol_for_unparsed[of exHost "''/proj''" ?f ?c "''JavaScript''" failingParser,
         OF 1 2 3 5]
  have "\<exists>s. extractSymbolsForFile exHost failingParser ''/proj'' ?f ''JavaScript'' = [s] \<and>
        sym_kind s = ''file'' \<and> sym_id s = ''file:broken.js#__file__'' \<and>
        sym_startLine s = 1 \<and> sym_endLine s = 2"
    by (simp add: exFile_def normalizePath_def newline_def)
  with 1 2 3 4 show ?thesis by blast
qed

section \<open>The source-snippet operation\<close>

text \<open>What a successful call returns: the path as given, the full size, the first
  \<open>min(size, clamp(maxBytes, 1 KiB, 512 KiB))\<close> bytes, and whether bytes were left out.\<close>

lemma readSourceSnippet_returns:
  assumes "readSourceSnippet h rootPath relativePath maxBytes = Inr r"
  shows "\<exists>bytes. node h (pathResolve h [pathResolve h [rootPath], relativePath]) = File bytes \<and>
           sn_path r = relativePath \<and> sn_size r = length bytes \<and>
           sn_content r = take (min (length bytes) (nat (max 1024 (min maxBytes 524288)))) bytes \<and>
           (sn_truncated r \<longleftrightarrow> length (sn_content r) < length bytes)"
  using assms
  by (auto simp: readSourceSnippet_def Let_def min.commute split: if_splits fsNode.splits)

lemma secret_resolve:
  "pathResolve secretHost [''/srv/app''] = ''/srv/app''"
  "pathResolve secretHost [''/srv/app'', ''../app-secrets/key.pem''] = ''/srv/app-secrets/key.pem''"
  by (simp_all add: pathResolve_def normalizeSegments_def secretHost_def)

text \<open>
  Claim C9, the rejection of paths outside the root, fails on the code.  The guard compares
  the two resolved paths as strings: with root \<^verbatim>\<open>/srv/app\<close> the path
  \<^verbatim>\<open>../app-secrets/key.pem\<close> resolves to \<^verbatim>\<open>/srv/app-secrets/key.pem\<close>, which is not below the
  root but starts with the root's characters; the file is served, not rejected.
\<close>

theorem snippet_outside_root_is_served:
  "\<not> insideRoot secretHost ''/srv/app'' ''../app-secrets/key.pem'' \<and>
   readSourceSnippet secretHost ''/srv/app'' ''../app-secrets/key.pem'' 204800 =
     Inr \<lparr>sn_path = ''../app-secrets/key.pem'', sn_size = 6, sn_content = ''secret'',
           sn_truncated = False\<rparr>"
proof -
  have n: "node secretHost ''/srv/app-secrets/key.pem'' = File ''secret''"
    by (simp add: secretHost_def secretNode_def)
  have a: "\<not> insideRoot secretHost ''/srv/app'' ''../app-secrets/key.pem''"
    by (simp add: insideRoot_def secret_resolve segmentsOf_def normalizeSegments_def)
  have b: "readSourceSnippet secretHost ''/srv/app'' ''../app-secrets/key.pem'' 204800 =
     Inr \<lparr>sn_path = ''../app-secrets/key.pem'', sn_size = 6, sn_content = ''secret'',
           sn_truncated = False\<rparr>"
    by (simp add: readSourceSnippet_def secret_resolve startsWith_def n)
  from a b show ?thesis by simp
qed

section \<open>Verification of the file metrics\<close>

lemma splitLines_nonempty: "splitLines s \<noteq> []"
  by (induction s rule: splitLines.induct) (auto split: list.splits)

lemma fileReport_paths:
  "i \<in> set (snd (fileReport h rootPath maxFileSize file)) \<Longrightarrow> is_path i = f_path file"
  by (auto simp: fileReport_def Let_def split: if_splits sum.splits)

lemma filter_own:
  "filter (\<lambda>i. is_path i = f_path file) (snd (fileReport h rootPath maxFileSize file)) =
     snd (fileReport h rootPath maxFileSize file)"
  by (rule filter_True) (simp add: fileReport_paths)

lemma filter_other:
  assumes "p \<noteq> f_path file"
  shows "filter (\<lambda>i. is_path i = p) (snd (fileReport h rootPath maxFileSize file)) = []"
  using assms fileReport_paths[of _ h rootPath maxFileSize "file"]
  by (auto simp: filter_empty_conv)

lemma metricsStep_same:
  "metricsOf (metricsStep h rootPath maxFileSize file acc) (f_path file) =
     Some (fst (fileReport h rootPath maxFileSize file))"
  "issuesFor (metricsStep h rootPath maxFileSize file acc) (f_path file) =
     issuesFor acc (f_path file) @ snd (fileReport h rootPath maxFileSize file)"
proof -
  obtain m pushed where r: "fileReport h rootPath maxFileSize file = (m, pushed)"
    by (cases "fileReport h rootPath maxFileSize file")
  from filter_own[of "file" h rootPath maxFileSize] r
  have f: "filter (\<lambda>i. is_path i = f_path file) pushed = pushed" by simp
  show "metricsOf (metricsStep h rootPath maxFileSize file acc) (f_path file) =
     Some (fst (fileReport h rootPath maxFileSize file))"
    by (simp add: metricsStep_def metricsOf_def r split: prod.splits)
  show "issuesFor (metricsStep h rootPath maxFileSize file acc) (f_path file) =
     issuesFor acc (f_path file) @ snd (fileReport h rootPath maxFileSize file)"
    using f by (simp add: metricsStep_def issuesFor_def r split: prod.splits)
qed

lemma metricsStep_other:
  assumes "p \<noteq> f_path file"
  shows "metricsOf (metricsStep h rootPath maxFileSize file acc) p = metricsOf acc p"
    and "issuesFor (metricsStep h rootPath maxFileSize file acc) p = issuesFor acc p"
proof -
  obtain m pushed where r: "fileReport h rootPath maxFileSize file = (m, pushed)"
    by (cases "fileReport h rootPath maxFileSize file")
  from filter_other[OF assms, of h rootPath maxFileSize] r
  have f: "filter (\<lambda>i. is_path i = p) pushed = []" by simp
  show "metricsOf (metricsStep h rootPath maxFileSize file acc) p = metricsOf acc p"
    using assms by (simp add: metricsStep_def metricsOf_def r split: prod.splits)
  show "issuesFor (metricsStep h rootPath maxFileSize file acc) p = issuesFor acc p"
    using f by (simp add: metricsStep_def issuesFor_def r split: prod.splits)
qed

lemma fold_metricsStep_other:
  assumes "p \<notin> f_path ` set files"
  shows "metricsOf (fold (metricsStep h rootPath maxFileSize) files acc) p = metricsOf acc p \<and>
         issuesFor (fold (metricsStep h rootPath maxFileSize) files acc) p = issuesFor acc p"
  using assms
proof (induction files arbitrary: acc)
  case Nil
  show ?case by simp
next
  case (Cons f fs)
  from Cons.prems have ne: "p \<noteq> f_path f" and rest: "p \<notin> f_path ` set fs" by auto
  from Cons.IH[OF rest, of "metricsStep h rootPath maxFileSize f acc"]
    metricsStep_other[OF ne, of h rootPath maxFileSize acc]
  show ?case by simp
qed

lemma fold_metricsStep_same:
  assumes "distinct (map f_path files)" and "file \<in> set files"
  shows "metricsOf (fold (metricsStep h rootPath maxFileSize) files acc) (f_path file) =
           Some (fst (fileReport h rootPath maxFileSize file)) \<and>
         issuesFor (fold (metricsStep h rootPath maxFileSize) files acc) (f_path file) =
           issuesFor acc (f_path file) @ snd (fileReport h rootPath maxFileSize file)"
  using assms
proof (induction files arbitrary: acc)
  case Nil
  then show ?case by simp
next
  case (Cons f fs)
  show ?case
  proof (cases "file = f")
    case True
    from Cons.prems(1) True have "f_path file \<notin> f_path ` set fs" by simp
    from fold_metricsStep_other[OF this, of h rootPath maxFileSize
           "metricsStep h rootPath maxFileSize f acc"]
      metricsStep_same[of h rootPath maxFileSize "file" acc] True
    show ?thesis by simp
  next
    case False
    with Cons.prems have mem: "file \<in> set fs" and d: "distinct (map f_path fs)" by auto
    from Cons.prems(1) have "f_path f \<notin> f_path ` set fs" by simp
    with mem have ne: "f_path file \<noteq> f_path f" by (metis imageI)
    from Cons.IH[OF d mem, of "metricsStep h rootPath maxFileSize f acc"]
      metricsStep_other[OF ne, of h rootPath maxFileSize acc]
    show ?thesis by simp
  qed
qed

lemma computeFileMetrics_file:
  assumes "distinct (map f_path files)" and "file \<in> set files"
  shows "metricsOf (computeFileMetrics h rootPath files None) (f_path file) =
           Some (fst (fileReport h rootPath DEFAULT_MAX_FILE_SIZE file))"
    and "issuesFor (computeFileMetrics h rootPath files None) (f_path file) =
           snd (fileReport h rootPath DEFAULT_MAX_FILE_SIZE file)"
  using fold_metricsStep_same[OF assms, of h rootPath DEFAULT_MAX_FILE_SIZE "(Map.empty, [])"]
  by (simp_all add: computeFileMetrics_def issuesFor_def)

lemma fileReport_large:
  assumes "f_size file > DEFAULT_MAX_FILE_SIZE"
  shows "fileReport h rootPath DEFAULT_MAX_FILE_SIZE file =
     (\<lparr>fm_language = detectLanguage (f_ext file), fm_size = f_size file, fm_lineCount = None,
       fm_complexityScore = None, fm_todoCount = 0, fm_skipped = True\<rparr>,
      [\<lparr>is_severity = ''info'', is_type = ''file-too-large'', is_path = f_path file,
        is_message = ''Skipped reading '' @ f_path file @ '' ('' @ formatBytes (f_size file)
                       @ '') to keep analysis fast.''\<rparr>])"
  using assms by (simp add: fileReport_def Let_def)

lemma fileReport_read:
  assumes "f_size file \<le> DEFAULT_MAX_FILE_SIZE"
    and "node h (pathResolve h [rootPath, f_path file]) = File content"
  shows "fst (fileReport h rootPath DEFAULT_MAX_FILE_SIZE file) =
     \<lparr>fm_language = detectLanguage (f_ext file), fm_size = f_size file,
      fm_lineCount = Some (length (splitLines content)),
      fm_complexityScore =
        Some (toFixed2 (toDouble (toDouble (of_nat (countMatches content DECISION_REGEX) /
                                            of_nat (length (splitLines content))) * 100))),
      fm_todoCount = countMatches content TODO_REGEX, fm_skipped = False\<rparr>"
    and "\<forall>i \<in> set (snd (fileReport h rootPath DEFAULT_MAX_FILE_SIZE file)).
           is_type i \<noteq> ''file-too-large''"
proof -
  show "fst (fileReport h rootPath DEFAULT_MAX_FILE_SIZE file) =
     \<lparr>fm_language = detectLanguage (f_ext file), fm_size = f_size file,
      fm_lineCount = Some (length (splitLines content)),
      fm_complexityScore =
        Some (toFixed2 (toDouble (toDouble (of_nat (countMatches content DECISION_REGEX) /
                                            of_nat (length (splitLines content))) * 100))),
      fm_todoCount = countMatches content TODO_REGEX, fm_skipped = False\<rparr>"
    using assms splitLines_nonempty[of content]
    by (simp add: fileReport_def Let_def readFileSync_def)
  show "\<forall>i \<in> set (snd (fileReport h rootPath DEFAULT_MAX_FILE_SIZE file)).
           is_type i \<noteq> ''file-too-large''"
    using assms by (auto simp: fileReport_def Let_def readFileSync_def split: if_splits)
qed

lemma fileReport_unreadable:
  assumes "f_size file \<le> DEFAULT_MAX_FILE_SIZE"
    and "node h (pathResolve h [rootPath, f_path file]) = Unreadable message"
  shows "fileReport h rootPath DEFAULT_MAX_FILE_SIZE file =
     (\<lparr>fm_language = detectLanguage (f_ext file), fm_size = f_size file, fm_lineCount = None,
       fm_complexityScore = None, fm_todoCount = 0, fm_skipped = True\<rparr>,
      [\<lparr>is_severity = ''warning'', is_type = ''file-read-error'', is_path = f_path file,
        is_message = ''Could not read file: '' @ message\<rparr>])"
  using assms by (simp add: fileReport_def Let_def readFileSync_def)

text \<open>
  Claim C7, as the code has it.  Let the scanned files have pairwise different paths.  A
  file of at most 512 KiB (512 KiB included) whose content is read gets a metrics record
  that is not skipped and holds the line count, the complexity score and the count of
  TODO-like comments of that content, and no \<open>file-too-large\<close> issue.  A file that is larger,
  be it by one byte, gets a record with \<open>skipped\<close> set, no line count and no complexity
  score, whatever its content, and exactly one issue: \<open>file-too-large\<close>, of severity
  \<open>info\<close>.
\<close>

theorem metrics_size_boundary:
  assumes "distinct (map f_path files)" and "file \<in> set files"
  shows "(f_size file \<le> 512 * 1024 \<and>
          node h (pathResolve h [rootPath, f_path file]) = File content \<longrightarrow>
            metricsOf (computeFileMetrics h rootPath files None) (f_path file) =
              Some \<lparr>fm_language = detectLanguage (f_ext file), fm_size = f_size file,
                    fm_lineCount = Some (length (splitLines content)),
                    fm_complexityScore =
                      Some (toFixed2 (toDouble
                              (toDouble (of_nat (countMatches content DECISION_REGEX) /
                                         of_nat (length (splitLines content))) * 100))),
                    fm_todoCount = countMatches content TODO_REGEX, fm_skipped = False\<rparr> \<and>
            (\<forall>i \<in> set (issuesFor (computeFileMetrics h rootPath files None) (f_path file)).
               is_type i \<noteq> ''file-too-large'')) \<and>
         (f_size file > 512 * 1024 \<longrightarrow>
            metricsOf (computeFileMetrics h rootPath files None) (f_path file) =
              Some \<lparr>fm_language = detectLanguage (f_ext file), fm_size = f_size file,
                    fm_lineCount = None, fm_complexityScore = None, fm_todoCount = 0,
                    fm_skipped = True\<rparr> \<and>
            issuesFor (computeFileMetrics h rootPath files None) (f_path file) =
              [\<lparr>is_severity = ''info'', is_type = ''file-too-large'', is_path = f_path file,
                is_message = ''Skipped reading '' @ f_path file @ '' (''
                               @ formatBytes (f_size file) @ '') to keep analysis fast.''\<rparr>])"
proof -
  have m: "DEFAULT_MAX_FILE_SIZE = 512 * 1024" by (simp add: DEFAULT_MAX_FILE_SIZE_def)
  note c = computeFileMetrics_file[OF assms, of h rootPath]
  show ?thesis
  proof (intro conjI impI)
    assume a: "f_size file \<le> 512 * 1024 \<and>
               node h (pathResolve h [rootPath, f_path file]) = File content"
    then have s: "f_size file \<le> DEFAULT_MAX_FILE_SIZE" and
      n: "node h (pathResolve h [rootPath, f_path file]) = File content"
      by (simp_all only: m)
    show "metricsOf (computeFileMetrics h rootPath files None) (f_path file) =
              Some \<lparr>fm_language = detectLanguage (f_ext file), fm_size = f_size file,
                    fm_lineCount = Some (length (splitLines content)),
                    fm_complexityScore =
                      Some (toFixed2 (toDouble
                              (toDouble (of_nat (countMatches content DECISION_REGEX) /
                                         of_nat (length (splitLines content))) * 100))),
                    fm_todoCount = countMatches content TODO_REGEX, fm_skipped = False\<rparr>"
      unfolding c(1) fileReport_read(1)[OF s n] by (rule refl)
    show "\<forall>i \<in> set (issuesFor (computeFileMetrics h rootPath files None) (f_path file)).
               is_type i \<noteq> ''file-too-large''"
      unfolding c(2) by (rule fileReport_read(2)[OF s n])
  next
    assume "512 * 1024 < f_size file"
    then have l: "f_size file > DEFAULT_MAX_FILE_SIZE" by (simp only: m)
    show "metricsOf (computeFileMetrics h rootPath files None) (f_path file) =
              Some \<lparr>fm_language = detectLanguage (f_ext file), fm_size = f_size file,
                    fm_lineCount = None, fm_complexityScore = None, fm_todoCount = 0,
                    fm_skipped = True\<rparr>"
      unfolding c(1) fileReport_large[OF l] by simp
    show "issuesFor (computeFileMetrics h rootPath files None) (f_path file) =
              [\<lparr>is_severity = ''info'', is_type = ''file-too-large'', is_path = f_path file,
                is_message = ''Skipped reading '' @ f_path file @ '' (''
                               @ formatBytes (f_size file) @ '') to keep analysis fast.''\<rparr>]"
      unfolding c(2) fileReport_large[OF l] by simp
  qed
qed


subsection \<open>The example files\<close>

lemma metrics_resolve:
  "pathResolve metricsHost [''/proj'', ''ok.js''] = ''/proj/ok.js''"
  "pathResolve metricsHost [''/proj'', ''locked.js''] = ''/proj/locked.js''"
  "pathResolve metricsHost [''/proj'', ''big.bin''] = ''/proj/big.bin''"
  "pathResolve metricsHost [''/proj'', ''full.txt''] = ''/proj/full.txt''"
  by (simp_all add: pathResolve_def normalizeSegments_def metricsHost_def)

lemma metrics_nodes:
  "node metricsHost ''/proj/ok.js'' = File (''if (a) {'' @ [newline] @ ''  // TODO'' @ [newline] @ ''}'')"
  "node metricsHost ''/proj/locked.js'' = Unreadable ''EACCES: permission denied, open /proj/locked.js''"
  "node metricsHost ''/proj/full.txt'' = File (replicate (512 * 1024) (CHR ''x''))"
  by (simp_all add: metricsHost_def metricsNode_def)

lemma ex_ok_lines:
  "length (splitLines (''if (a) {'' @ [newline] @ ''  // TODO'' @ [newline] @ ''}'')) = 3"
  by (simp add: newline_def carriage_def)

lemma ex_ok_decisions:
  "countMatches (''if (a) {'' @ [newline] @ ''  // TODO'' @ [newline] @ ''}'') DECISION_REGEX = 1"
  by (simp add: countMatches_def DECISION_REGEX_def wordsRegex_def matchLen_def headOf_def
        prevAfter_def wordChar_def newline_def)

lemma ex_ok_todos:
  "countMatches (''if (a) {'' @ [newline] @ ''  // TODO'' @ [newline] @ ''}'') TODO_REGEX = 1"
  by (simp add: countMatches_def TODO_REGEX_def wordsRegex_def matchLen_def headOf_def
        prevAfter_def wordChar_def newline_def)

lemma ex_ok_score: "toFixed2 (toDouble (toDouble (1 / 3) * 100)) = toDouble (3333 / 100)"
proof -
  have a: "toDouble (1 / 3) = 6004799503160661 / 18014398509481984"
    by (simp add: toDouble_eval)
  have b: "toDouble (6004799503160661 / 18014398509481984 * 100) =
           2345624805922133 / 70368744177664"
    by (simp add: toDouble_eval)
  show ?thesis unfolding a b by (simp add: toFixed2_def floor_rat_numeral)
qed

lemma ex_formatBytes: "formatBytes 524289 = ''512.0 KB''"
proof -
  have d: "toDouble (524289 / 1024) = 524289 / 1024" by (simp add: toDouble_eval)
  have s: "showNat 512 = ''512''" "showNat 0 = ''0''"
    by (simp_all add: showNat.simps[of 512] showNat.simps[of 51] showNat.simps[of 5]
          showNat.simps[of 0] digitChar_def)
  show ?thesis
    by (simp add: formatBytes_def d showFixed1_def floor_rat_numeral s Let_def)
qed


text \<open>
  Counterexample to claim C7 as stated: a file of 20 bytes that cannot be read (the read
  throws) is not populated.  Its record is skipped, without line count and complexity
  score, and the issue is \<open>file-read-error\<close>.
\<close>

theorem unreadable_file_not_measured:
  "f_size (exFile ''locked.js'' ''.js'' 20) \<le> 512 * 1024 \<and>
   metricsOf (computeFileMetrics metricsHost ''/proj'' [exFile ''locked.js'' ''.js'' 20] None)
     ''locked.js'' =
     Some \<lparr>fm_language = ''JavaScript'', fm_size = 20, fm_lineCount = None,
           fm_complexityScore = None, fm_todoCount = 0, fm_skipped = True\<rparr> \<and>
   issuesFor (computeFileMetrics metricsHost ''/proj'' [exFile ''locked.js'' ''.js'' 20] None)
     ''locked.js'' =
     [\<lparr>is_severity = ''warning'', is_type = ''file-read-error'', is_path = ''locked.js'',
       is_message = ''Could not read file: EACCES: permission denied, open /proj/locked.js''\<rparr>]"
proof -
  let ?f = "exFile ''locked.js'' ''.js'' 20"
  have p: "f_path ?f = ''locked.js''" and z: "f_size ?f = 20" and x: "f_ext ?f = ''.js''"
    by (simp_all add: exFile_def)
  have s: "f_size ?f \<le> DEFAULT_MAX_FILE_SIZE" by (simp add: z DEFAULT_MAX_FILE_SIZE_def)
  have n: "node metricsHost (pathResolve metricsHost [''/proj'', f_path ?f]) =
             Unreadable ''EACCES: permission denied, open /proj/locked.js''"
    unfolding p metrics_resolve by (rule metrics_nodes)
  have l: "detectLanguage ''.js'' = ''JavaScript''"
    by (simp add: detectLanguage_def EXTENSION_TO_LANGUAGE_def toLowerCase_def lowerChar_def)
  have d: "distinct (map f_path [?f])" and m: "?f \<in> set [?f]" by simp_all
  note c = computeFileMetrics_file[OF d m, of metricsHost "''/proj''",
             unfolded fileReport_unreadable[OF s n] p z x l]
  show ?thesis using c by (simp add: z)
qed

theorem metrics_size_boundary_witness:
  "distinct (map f_path [exFile ''ok.js'' ''.js'' 20, exFile ''full.txt'' ''.txt'' 524288,
                         exFile ''big.bin'' ''.bin'' 524289]) \<and>
   f_size (exFile ''ok.js'' ''.js'' 20) \<le> 512 * 1024 \<and>
   metricsOf (computeFileMetrics metricsHost ''/proj''
               [exFile ''ok.js'' ''.js'' 20, exFile ''full.txt'' ''.txt'' 524288,
                exFile ''big.bin'' ''.bin'' 524289] None) ''ok.js'' =
     Some \<lparr>fm_language = ''JavaScript'', fm_size = 20, fm_lineCount = Some 3,
           fm_complexityScore = Some (toDouble (3333 / 100)), fm_todoCount = 1,
           fm_skipped = False\<rparr> \<and>
   f_size (exFile ''full.txt'' ''.txt'' 524288) \<le> 512 * 1024 \<and>
   metricsOf (computeFileMetrics metricsHost ''/proj''
               [exFile ''ok.js'' ''.js'' 20, exFile ''full.txt'' ''.txt'' 524288,
                exFile ''big.bin'' ''.bin'' 524289] None) ''full.txt'' =
     Some \<lparr>fm_language = ''Unknown'', fm_size = 524288,
           fm_lineCount = Some (length (splitLines (replicate (512 * 1024) (CHR ''x'')))),
           fm_complexityScore =
             Some (toFixed2 (toDouble
                     (toDouble (of_nat (countMatches (replicate (512 * 1024) (CHR ''x''))
                                          DECISION_REGEX) /
                                of_nat (length (splitLines (replicate (512 * 1024) (CHR ''x'')))))
                      * 100))),
           fm_todoCount = countMatches (replicate (512 * 1024) (CHR ''x'')) TODO_REGEX,
           fm_skipped = False\<rparr> \<and>
   f_size (exFile ''big.bin'' ''.bin'' 524289) > 512 * 1024 \<and>
   metricsOf (computeFileMetrics metricsHost ''/proj''
               [exFile ''ok.js'' ''.js'' 20, exFile ''full.txt'' ''.txt'' 524288,
                exFile ''big.bin'' ''.bin'' 524289] None) ''big.bin'' =
     Some \<lparr>fm_language = ''Unknown'', fm_size = 524289, fm_lineCount = None,
           fm_complexityScore = None, fm_todoCount = 0, fm_skipped = True\<rparr> \<and>
   issuesFor (computeFileMetrics metricsHost ''/proj''
               [exFile ''ok.js'' ''.js'' 20, exFile ''full.txt'' ''.txt'' 524288,
                exFile ''big.bin'' ''.bin'' 524289] None) ''big.bin'' =
     [\<lparr>is_severity = ''info'', is_type = ''file-too-large'', is_path = ''big.bin'',
       is_message = ''Skipped reading big.bin (512.0 KB) to keep analysis fast.''\<rparr>]"
proof -
  let ?ok = "exFile ''ok.js'' ''.js'' 20" and ?full = "exFile ''full.txt'' ''.txt'' 524288"
    and ?big = "exFile ''big.bin'' ''.bin'' 524289"
  let ?files = "[?ok, ?full, ?big]"
  let ?c = "''if (a) {'' @ [newline] @ ''  // TODO'' @ [newline] @ ''}''"
  let ?x = "replicate (512 * 1024) (CHR ''x'')"
  have d: "distinct (map f_path ?files)" by (simp add: exFile_def)
  have sel: "f_path ?ok = ''ok.js''" "f_size ?ok = 20" "f_ext ?ok = ''.js''"
    "f_path ?full = ''full.txt''" "f_size ?full = 524288" "f_ext ?full = ''.txt''"
    "f_path ?big = ''big.bin''" "f_size ?big = 524289" "f_ext ?big = ''.bin''"
    by (simp_all add: exFile_def)
  have lang: "detectLanguage ''.js'' = ''JavaScript''" "detectLanguage ''.txt'' = ''Unknown''"
    "detectLanguage ''.bin'' = ''Unknown''"
    by (simp_all add: detectLanguage_def EXTENSION_TO_LANGUAGE_def toLowerCase_def lowerChar_def)
  have s1: "f_size ?ok \<le> 512 * 1024" and s2: "f_size ?full \<le> 512 * 1024"
    and s3: "f_size ?big > 512 * 1024" by (simp_all add: sel)
  have n1: "node metricsHost (pathResolve metricsHost [''/proj'', f_path ?ok]) = File ?c"
    unfolding sel metrics_resolve by (rule metrics_nodes)
  have n2: "node metricsHost (pathResolve metricsHost [''/proj'', f_path ?full]) = File ?x"
    unfolding sel metrics_resolve by (rule metrics_nodes)
  have m1: "?ok \<in> set ?files" and m2: "?full \<in> set ?files" and m3: "?big \<in> set ?files"
    by simp_all
  from metrics_size_boundary[OF d m1, of metricsHost "''/proj''" ?c] s1 n1
  have 1: "metricsOf (computeFileMetrics metricsHost ''/proj'' ?files None) ''ok.js'' =
     Some \<lparr>fm_language = ''JavaScript'', fm_size = 20, fm_lineCount = Some 3,
           fm_complexityScore = Some (toDouble (3333 / 100)), fm_todoCount = 1,
           fm_skipped = False\<rparr>"
    unfolding sel lang ex_ok_lines ex_ok_decisions ex_ok_todos
    by (simp add: ex_ok_score)
  from metrics_size_boundary[OF d m2, of metricsHost "''/proj''" ?x] s2 n2
  have 2: "metricsOf (computeFileMetrics metricsHost ''/proj'' ?files None) ''full.txt'' =
     Some \<lparr>fm_language = ''Unknown'', fm_size = 524288,
           fm_lineCount = Some (length (splitLines ?x)),
           fm_complexityScore =
             Some (toFixed2 (toDouble
                     (toDouble (of_nat (countMatches ?x DECISION_REGEX) /
                                of_nat (length (splitLines ?x))) * 100))),
           fm_todoCount = countMatches ?x TODO_REGEX, fm_skipped = False\<rparr>"
    unfolding sel lang by blast
  from metrics_size_boundary[OF d m3, of metricsHost "''/proj''"] s3
  have 3: "metricsOf (computeFileMetrics metricsHost ''/proj'' ?files None) ''big.bin'' =
     Some \<lparr>fm_language = ''Unknown'', fm_size = 524289, fm_lineCount = None,
           fm_complexityScore = None, fm_todoCount = 0, fm_skipped = True\<rparr>"
    and 4: "issuesFor (computeFileMetrics metricsHost ''/proj'' ?files None) ''big.bin'' =
     [\<lparr>is_severity = ''info'', is_type = ''file-too-large'', is_path = ''big.bin'',
       is_message = ''Skipped reading big.bin (512.0 KB) to keep analysis fast.''\<rparr>]"
    unfolding sel lang ex_formatBytes by simp_all
  show ?thesis using d s1 s2 s3 1 2 3 4 by blast
qed


end
